theory Spec2Isabelle
  imports Main "HOL-Library.Word"
begin

unbundle bit_operations_syntax

section \<open>Directory metadata extractor: the scan and the writer of index.js\<close>

text \<open>
  The program lists the directories below the user's Documents folder and writes one
  record per directory to a CSV file and to a JSON file. The model follows
  \<^verbatim>\<open>src/index.js\<close>: \<^verbatim>\<open>getAllDirectoriesRecursively\<close> (lines 33-141),
  \<^verbatim>\<open>writeDirectoriesToFile\<close> (lines 151-192) and
  \<^verbatim>\<open>getAllDirectoriesInDocumentsFolder\<close> (lines 202-225). What the program takes
  from Node (the \<^verbatim>\<open>path\<close> and \<^verbatim>\<open>fs\<close> modules, \<^verbatim>\<open>JSON.stringify\<close>) and from the
  uuid package is modelled beside it, on a POSIX platform.
\<close>

subsection \<open>Errors\<close>

text \<open>
  Every rejected promise of the source is a value: the error codes of the file system
  calls, and \<open>OutOfFuel\<close> for a recursion that was cut by the depth bound of the model.
\<close>

datatype error = ENOENT | ENOTDIR | ELOOP | EEXIST | OutOfFuel

subsection \<open>Node's path module (posix)\<close>

text \<open>
  \<^verbatim>\<open>path.join\<close>, \<^verbatim>\<open>path.normalize\<close>, \<^verbatim>\<open>path.resolve\<close> and \<^verbatim>\<open>path.relative\<close>
  work on the segments between separators. \<open>split_sep\<close> is \<^verbatim>\<open>s.split('/')\<close> and
  \<open>join_sep\<close> is \<^verbatim>\<open>segs.join('/')\<close>.
\<close>

fun split_sep :: "string \<Rightarrow> string list" where
  "split_sep [] = [[]]"
| "split_sep (c # cs) =
     (if c = CHR ''/'' then [] # split_sep cs
      else (c # hd (split_sep cs)) # tl (split_sep cs))"

fun join_sep :: "string list \<Rightarrow> string" where
  "join_sep [] = []"
| "join_sep [s] = s"
| "join_sep (s # t # ss) = s @ CHR ''/'' # join_sep (t # ss)"

text \<open>
  \<^verbatim>\<open>normalizeString(path, allowAboveRoot)\<close>: empty segments and \<^verbatim>\<open>.\<close> are dropped; \<^verbatim>\<open>..\<close>
  removes the segment before it, unless there is none or it is \<^verbatim>\<open>..\<close> itself, where it is
  kept only if \<open>allowAboveRoot\<close>. \<open>res\<close> holds the segments kept so far.
\<close>

fun normalizeSegments :: "bool \<Rightarrow> string list \<Rightarrow> string list \<Rightarrow> string list" where
  "normalizeSegments allowAboveRoot res [] = res"
| "normalizeSegments allowAboveRoot res (s # ss) =
     (if s = [] \<or> s = ''.'' then normalizeSegments allowAboveRoot res ss
      else if s = ''..'' then
        (if res \<noteq> [] \<and> last res \<noteq> ''..'' then normalizeSegments allowAboveRoot (butlast res) ss
         else if allowAboveRoot then normalizeSegments allowAboveRoot (res @ [''..'']) ss
         else normalizeSegments allowAboveRoot res ss)
      else normalizeSegments allowAboveRoot (res @ [s]) ss)"

definition normalizeString :: "string \<Rightarrow> bool \<Rightarrow> string" where
  "normalizeString p allowAboveRoot = join_sep (normalizeSegments allowAboveRoot [] (split_sep p))"

definition isAbsolute :: "string \<Rightarrow> bool" where
  "isAbsolute p = (p \<noteq> [] \<and> hd p = CHR ''/'')"

definition path_normalize :: "string \<Rightarrow> string" where
  "path_normalize p =
     (if p = [] then ''.''
      else let trailingSeparator = (last p = CHR ''/'');
               q = normalizeString p (\<not> isAbsolute p)
           in if q = [] then (if isAbsolute p then ''/'' else if trailingSeparator then ''./'' else ''.'')
              else (if isAbsolute p then ''/'' else []) @ q @ (if trailingSeparator then ''/'' else []))"

text \<open>\<^verbatim>\<open>path.join(a, b)\<close>: the non-empty arguments joined by a separator, then normalized.\<close>

definition path_join :: "string \<Rightarrow> string \<Rightarrow> string" where
  "path_join a b =
     (if a = [] \<and> b = [] then ''.''
      else if a = [] then path_normalize b
      else if b = [] then path_normalize a
      else path_normalize (a @ CHR ''/'' # b))"

text \<open>
  \<^verbatim>\<open>path.resolve(p)\<close> with one argument: a relative path is taken from the working
  directory; the result is absolute, normalized and has no trailing separator.
\<close>

definition path_resolve :: "string \<Rightarrow> string \<Rightarrow> string" where
  "path_resolve cwd p =
     (let full = (if isAbsolute p then p else cwd @ CHR ''/'' # p)
      in CHR ''/'' # normalizeString full False)"

fun dropCommon :: "string list \<Rightarrow> string list \<Rightarrow> string list \<times> string list" where
  "dropCommon (x # xs) (y # ys) = (if x = y then dropCommon xs ys else (x # xs, y # ys))"
| "dropCommon xs ys = (xs, ys)"

text \<open>
  \<^verbatim>\<open>path.relative(from, to)\<close>: both paths are resolved, their common leading segments
  are dropped, every segment left of \<open>from\<close> becomes \<^verbatim>\<open>..\<close>, and the rest of \<open>to\<close> follows.
\<close>

definition path_relative :: "string \<Rightarrow> string \<Rightarrow> string \<Rightarrow> string" where
  "path_relative cwd from to =
     (if from = to then []
      else let f = path_resolve cwd from; t = path_resolve cwd to
           in if f = t then []
              else let (fs, ts) = dropCommon (normalizeSegments False [] (split_sep f))
                                             (normalizeSegments False [] (split_sep t))
                   in join_sep (replicate (length fs) ''..'' @ ts))"

subsection \<open>fs.Stats\<close>

text \<open>
  The fields of \<^verbatim>\<open>fs.Stats\<close> that the program reads. \<open>atime\<close> and \<open>mtime\<close> are
  Dates; the model keeps each Date as the text its \<^verbatim>\<open>toISOString()\<close> returns, the
  only thing the program does with it.
\<close>

record Stats =
  mode :: "32 word"
  uid :: nat
  gid :: nat
  atime :: string
  mtime :: string

definition S_IFMT :: "32 word" where "S_IFMT = 61440"    \<comment> \<open>0o170000\<close>
definition S_IFDIR :: "32 word" where "S_IFDIR = 16384"  \<comment> \<open>0o040000\<close>
definition S_IFREG :: "32 word" where "S_IFREG = 32768"  \<comment> \<open>0o100000\<close>
definition S_IFLNK :: "32 word" where "S_IFLNK = 40960"  \<comment> \<open>0o120000\<close>

text \<open>\<^verbatim>\<open>isDirectory()\<close> and \<^verbatim>\<open>isSymbolicLink()\<close> compare the file type bits of the mode.\<close>

definition isDirectory :: "Stats \<Rightarrow> bool" where
  "isDirectory st = (mode st AND S_IFMT = S_IFDIR)"

definition isSymbolicLink :: "Stats \<Rightarrow> bool" where
  "isSymbolicLink st = (mode st AND S_IFMT = S_IFLNK)"

subsection \<open>The file system calls the scan makes\<close>

record fsops =
  readdir :: "string \<Rightarrow> error + string list"
  lstat :: "string \<Rightarrow> error + Stats"
  realpath :: "string \<Rightarrow> error + string"

subsection \<open>Number rendering\<close>

text \<open>
  \<^verbatim>\<open>n.toString(b)\<close> for a non-negative integer and a radix up to ten: the program
  renders the permission bits in octal, and the template literal and
  \<^verbatim>\<open>JSON.stringify\<close> render the owner and the group in decimal.
\<close>

fun digit_char :: "nat \<Rightarrow> char" where
  "digit_char n = char_of (48 + n)"

function toStringBase :: "nat \<Rightarrow> nat \<Rightarrow> string" where
  "toStringBase b n =
     (if b < 2 \<or> n < b then [digit_char n]
      else toStringBase b (n div b) @ [digit_char (n mod b)])"
  by pat_completeness auto
termination
  by (relation "measure snd") (auto intro: div_less_dividend)

subsection \<open>The scan\<close>

record directoryMetadata =
  uuid :: string
  name :: string
  relative_path :: string
  absolute_path :: string
  last_accessed :: string
  last_modified :: string
  owner :: nat
  group :: nat
  permissions :: string

text \<open>
  What is fixed for a run: the home directory and the working directory of the process,
  and the uuid package, as the value its \<open>k\<close>-th call returns.
\<close>

record env =
  homedir :: string
  cwd :: string
  uuidv4 :: "nat \<Rightarrow> string"

definition DOCUMENTS_FOLDER_PATH :: "env \<Rightarrow> string" where
  "DOCUMENTS_FOLDER_PATH E = path_join (homedir E) ''Documents''"

definition DATA_FOLDER_PATH :: "env \<Rightarrow> string" where
  "DATA_FOLDER_PATH E = path_join (cwd E) ''data''"

definition IGNORED_DIRECTORIES :: "string list" where
  "IGNORED_DIRECTORIES = [''.git'', ''.vscode'', ''node_modules'']"

definition startsWith :: "string \<Rightarrow> string \<Rightarrow> bool" where
  "startsWith s p = (take (length p) s = p)"

text \<open>
  The state the scan threads through: the Set \<open>allDirectories\<close>, in insertion order
  (every element is a fresh object, so \<^verbatim>\<open>add\<close> always inserts at the end), and the number
  of calls of \<^verbatim>\<open>uuidv4\<close> made so far.
\<close>

record scan_state =
  allDirectories :: "directoryMetadata list"
  uuid_calls :: nat

definition make_metadata :: "env \<Rightarrow> string \<Rightarrow> string \<Rightarrow> string \<Rightarrow> Stats \<Rightarrow> directoryMetadata" where
  "make_metadata E directoryUUID file directoryAbsolutePath fileStat =
     \<lparr> uuid = directoryUUID,
       name = file,
       relative_path = path_relative (cwd E) (DOCUMENTS_FOLDER_PATH E) directoryAbsolutePath,
       absolute_path = directoryAbsolutePath,
       last_accessed = atime fileStat,
       last_modified = mtime fileStat,
       owner = uid fileStat,
       group = gid fileStat,
       permissions = toStringBase 8 (unat (mode fileStat AND 511)) \<rparr>"

text \<open>
  \<^verbatim>\<open>getAllDirectoriesRecursively(directoryPath, allDirectories)\<close>. \<open>scan_files\<close> is the
  \<^verbatim>\<open>for (const file of files)\<close> loop. The first argument bounds the depth of the
  recursion: a call that would go deeper returns \<open>OutOfFuel\<close>.
\<close>

fun getAllDirectoriesRecursively ::
    "nat \<Rightarrow> env \<Rightarrow> fsops \<Rightarrow> string \<Rightarrow> scan_state \<Rightarrow> error + scan_state"
and scan_files ::
    "nat \<Rightarrow> env \<Rightarrow> fsops \<Rightarrow> string \<Rightarrow> string list \<Rightarrow> scan_state \<Rightarrow> error + scan_state"
where
  "getAllDirectoriesRecursively 0 E fs directoryPath s = Inl OutOfFuel"
| "getAllDirectoriesRecursively (Suc n) E fs directoryPath s =
     (case readdir fs directoryPath of
        Inl e \<Rightarrow> Inl e
      | Inr files \<Rightarrow> scan_files n E fs directoryPath files s)"
| "scan_files n E fs directoryPath [] s = Inr s"
| "scan_files n E fs directoryPath (file # files) s =
     (let filePath = path_join directoryPath file in
      case lstat fs filePath of
        Inl e \<Rightarrow> Inl e
      | Inr fileStat \<Rightarrow>
          if isDirectory fileStat then
            if startsWith file ''.'' \<or> file \<in> set IGNORED_DIRECTORIES
            then scan_files n E fs directoryPath files s
            else
              let directoryUUID = uuidv4 E (uuid_calls s);
                  s1 = s\<lparr>uuid_calls := Suc (uuid_calls s)\<rparr>
              in case (if isSymbolicLink fileStat then realpath fs filePath else Inr filePath) of
                   Inl e \<Rightarrow> Inl e
                 | Inr directoryAbsolutePath \<Rightarrow>
                     let directoryMetadata =
                           make_metadata E directoryUUID file directoryAbsolutePath fileStat;
                         s2 = s1\<lparr>allDirectories := allDirectories s1 @ [directoryMetadata]\<rparr>
                     in case getAllDirectoriesRecursively n E fs directoryAbsolutePath s2 of
                          Inl e \<Rightarrow> Inl e
                        | Inr s3 \<Rightarrow> scan_files n E fs directoryPath files s3
          else scan_files n E fs directoryPath files s)"

subsection \<open>The scan as a list of the directories found\<close>

text \<open>
  The same walk without the state: the entries for which a record is made, each as its
  joined path, its name and its \<^verbatim>\<open>lstat\<close> result, in the order the scan meets them.
  \<open>add_all\<close> then makes the records and adds them to the state, one \<^verbatim>\<open>uuidv4\<close>
  call each. That the scan is this composition is proved below (\<open>scan_visit\<close>).
\<close>

type_synonym found = "string \<times> string \<times> Stats"

fun visit :: "nat \<Rightarrow> fsops \<Rightarrow> string \<Rightarrow> error + found list"
and visit_files :: "nat \<Rightarrow> fsops \<Rightarrow> string \<Rightarrow> string list \<Rightarrow> error + found list"
where
  "visit 0 fs directoryPath = Inl OutOfFuel"
| "visit (Suc n) fs directoryPath =
     (case readdir fs directoryPath of
        Inl e \<Rightarrow> Inl e
      | Inr files \<Rightarrow> visit_files n fs directoryPath files)"
| "visit_files n fs directoryPath [] = Inr []"
| "visit_files n fs directoryPath (file # files) =
     (case lstat fs (path_join directoryPath file) of
        Inl e \<Rightarrow> Inl e
      | Inr fileStat \<Rightarrow>
          if isDirectory fileStat \<and> \<not> (startsWith file ''.'' \<or> file \<in> set IGNORED_DIRECTORIES) then
            (case visit n fs (path_join directoryPath file) of
               Inl e \<Rightarrow> Inl e
             | Inr xs \<Rightarrow>
                 (case visit_files n fs directoryPath files of
                    Inl e \<Rightarrow> Inl e
                  | Inr ys \<Rightarrow> Inr ((path_join directoryPath file, file, fileStat) # xs @ ys)))
          else visit_files n fs directoryPath files)"

definition record_of :: "env \<Rightarrow> nat \<times> found \<Rightarrow> directoryMetadata" where
  "record_of E = (\<lambda>(k, p, file, st). make_metadata E (uuidv4 E k) file p st)"

definition add_all :: "env \<Rightarrow> scan_state \<Rightarrow> found list \<Rightarrow> scan_state" where
  "add_all E s xs =
     \<lparr> allDirectories = allDirectories s @ map (record_of E) (List.enumerate (uuid_calls s) xs),
       uuid_calls = uuid_calls s + length xs \<rparr>"

subsection \<open>A POSIX file system\<close>

text \<open>
  The file system the program runs on: a tree of directories, regular files and symbolic
  links. A directory holds its entries by name, in the order \<^verbatim>\<open>readdir\<close> lists them.
  \<open>walk\<close> is path resolution: it follows every symbolic link on the way, at most
  \<open>MAXSYMLINKS\<close> of them. \<^verbatim>\<open>lstat\<close> does not follow a link in the last component;
  \<^verbatim>\<open>readdir\<close> and \<^verbatim>\<open>realpath\<close> do.
\<close>

record inode =
  i_perm :: "32 word"
  i_uid :: nat
  i_gid :: nat
  i_atime :: string
  i_mtime :: string

datatype node = File inode | Dir inode "(string \<times> node) list" | Symlink inode string

fun node_at :: "node \<Rightarrow> string list \<Rightarrow> node option" where
  "node_at nd [] = Some nd"
| "node_at (Dir i entries) (s # ss) =
     (case map_of entries s of None \<Rightarrow> None | Some c \<Rightarrow> node_at c ss)"
| "node_at nd (s # ss) = None"

fun lookup_child :: "node \<Rightarrow> string list \<Rightarrow> string \<Rightarrow> error + node" where
  "lookup_child root dir s =
     (case node_at root dir of
        None \<Rightarrow> Inl ENOENT
      | Some (Dir i entries) \<Rightarrow> (case map_of entries s of None \<Rightarrow> Inl ENOENT | Some c \<Rightarrow> Inr c)
      | Some nd \<Rightarrow> Inl ENOTDIR)"

fun walk :: "nat \<Rightarrow> node \<Rightarrow> string list \<Rightarrow> string list \<Rightarrow> error + string list" where
  "walk k root dir [] = Inr dir"
| "walk k root dir (s # ss) =
     (if s = [] \<or> s = ''.'' then walk k root dir ss
      else if s = ''..'' then walk k root (butlast dir) ss
      else case lookup_child root dir s of
             Inl e \<Rightarrow> Inl e
           | Inr (Symlink i target) \<Rightarrow>
               (case k of
                  0 \<Rightarrow> Inl ELOOP
                | Suc k' \<Rightarrow> walk k' root (if isAbsolute target then [] else dir) (split_sep target @ ss))
           | Inr (Dir i entries) \<Rightarrow> walk k root (dir @ [s]) ss
           | Inr (File i) \<Rightarrow> if ss = [] then Inr (dir @ [s]) else Inl ENOTDIR)"

text \<open>
  A relative path is resolved from the working directory of the process. The mode that
  \<^verbatim>\<open>lstat\<close> reports holds the file type bits of the entry itself and its permission
  bits.
\<close>

definition from_cwd :: "string \<Rightarrow> string \<Rightarrow> string list" where
  "from_cwd wd p = (if isAbsolute p then split_sep p else split_sep wd @ split_sep p)"

definition stats_of :: "node \<Rightarrow> Stats" where
  "stats_of nd =
     (let (t, i) = (case nd of File i \<Rightarrow> (S_IFREG, i) | Dir i entries \<Rightarrow> (S_IFDIR, i) | Symlink i target \<Rightarrow> (S_IFLNK, i))
      in \<lparr> mode = t OR (i_perm i AND 4095), uid = i_uid i, gid = i_gid i,
           atime = i_atime i, mtime = i_mtime i \<rparr>)"

definition MAXSYMLINKS :: nat where "MAXSYMLINKS = 40"

definition fs_realpath :: "node \<Rightarrow> string \<Rightarrow> string \<Rightarrow> error + string" where
  "fs_realpath root wd p =
     (case walk MAXSYMLINKS root [] (from_cwd wd p) of
        Inl e \<Rightarrow> Inl e
      | Inr dir \<Rightarrow> Inr (CHR ''/'' # join_sep dir))"

definition fs_readdir :: "node \<Rightarrow> string \<Rightarrow> string \<Rightarrow> error + string list" where
  "fs_readdir root wd p =
     (case walk MAXSYMLINKS root [] (from_cwd wd p) of
        Inl e \<Rightarrow> Inl e
      | Inr dir \<Rightarrow>
          (case node_at root dir of
             Some (Dir i entries) \<Rightarrow> Inr (map fst entries)
           | Some nd \<Rightarrow> Inl ENOTDIR
           | None \<Rightarrow> Inl ENOENT))"

definition fs_lstat :: "node \<Rightarrow> string \<Rightarrow> string \<Rightarrow> error + Stats" where
  "fs_lstat root wd p =
     (let segs = from_cwd wd p; s = last segs in
      if s = [] \<or> s = ''.'' \<or> s = ''..'' then
        (case walk MAXSYMLINKS root [] segs of
           Inl e \<Rightarrow> Inl e
         | Inr dir \<Rightarrow> (case node_at root dir of None \<Rightarrow> Inl ENOENT | Some nd \<Rightarrow> Inr (stats_of nd)))
      else
        (case walk MAXSYMLINKS root [] (butlast segs) of
           Inl e \<Rightarrow> Inl e
         | Inr dir \<Rightarrow> (case lookup_child root dir s of Inl e \<Rightarrow> Inl e | Inr nd \<Rightarrow> Inr (stats_of nd))))"

definition posix :: "node \<Rightarrow> string \<Rightarrow> fsops" where
  "posix root wd = \<lparr> readdir = fs_readdir root wd, lstat = fs_lstat root wd, realpath = fs_realpath root wd \<rparr>"

subsection \<open>Well-formed trees and the directories below a folder\<close>

text \<open>
  In a file system the names in a directory are pairwise different, and a name is not
  empty, not \<^verbatim>\<open>.\<close> or \<^verbatim>\<open>..\<close>, and has no separator in it.
\<close>

definition valid_name :: "string \<Rightarrow> bool" where
  "valid_name s = (s \<noteq> [] \<and> s \<noteq> ''.'' \<and> s \<noteq> ''..'' \<and> CHR ''/'' \<notin> set s)"

fun wf_node :: "node \<Rightarrow> bool" where
  "wf_node (Dir i entries) =
     (distinct (map fst entries) \<and> (\<forall>x \<in> set entries. valid_name (fst x) \<and> wf_node (snd x)))"
| "wf_node nd = True"

text \<open>
  \<open>tree_dirs d nd\<close> lists, for the directory \<open>nd\<close> at the segments \<open>d\<close>, the
  directories below it in depth-first preorder: the entries in their order, each
  directory entry with a name that is not skipped followed by the listing of what is
  below it. An entry that is a file or a symbolic link, or a directory with a skipped
  name, contributes nothing. \<open>depth\<close> is the number of nested calls the scan of a
  directory makes.
\<close>

definition abs_path :: "string list \<Rightarrow> string" where
  "abs_path segs = CHR ''/'' # join_sep segs"

definition skipped :: "string \<Rightarrow> bool" where
  "skipped f = (startsWith f ''.'' \<or> f \<in> set IGNORED_DIRECTORIES)"

fun tree_dirs :: "string list \<Rightarrow> node \<Rightarrow> (string list \<times> node) list" where
  "tree_dirs d (Dir i entries) =
     concat (map (\<lambda>(f, c). case c of
                     Dir j sub \<Rightarrow> if skipped f then [] else (d @ [f], c) # tree_dirs (d @ [f]) c
                   | _ \<Rightarrow> []) entries)"
| "tree_dirs d nd = []"

definition entry_dirs :: "string list \<Rightarrow> string \<times> node \<Rightarrow> (string list \<times> node) list" where
  "entry_dirs d = (\<lambda>(f, c). case c of
                     Dir j sub \<Rightarrow> if skipped f then [] else (d @ [f], c) # tree_dirs (d @ [f]) c
                   | _ \<Rightarrow> [])"

fun depth :: "node \<Rightarrow> nat" where
  "depth (Dir i entries) = Suc (foldr (\<lambda>x m. max (depth (snd x)) m) entries 0)"
| "depth nd = 0"

definition found_of :: "string list \<times> node \<Rightarrow> found" where
  "found_of = (\<lambda>(segs, c). (abs_path segs, last segs, stats_of c))"

text \<open>
  An example: the Documents folder of user \<^verbatim>\<open>u\<close> with the directories \<^verbatim>\<open>A\<close>,
  \<^verbatim>\<open>A/B\<close> and \<^verbatim>\<open>.git\<close> (which holds \<^verbatim>\<open>objects\<close>) and the file \<^verbatim>\<open>note.txt\<close>; a
  uuid generator that numbers its calls; and the collection that the scan of this folder
  returns (\<open>example_scan\<close> below).
\<close>

definition ino :: "nat \<Rightarrow> inode" where
  "ino p = \<lparr> i_perm = of_nat p, i_uid = 1000, i_gid = 1000,
            i_atime = ''2023-04-23T11:39:10.000Z'', i_mtime = ''2023-04-23T11:46:20.000Z'' \<rparr>"

definition example_env :: env where
  "example_env = \<lparr> homedir = ''/home/u'', cwd = ''/home/u/tool'', uuidv4 = (\<lambda>k. ''id-'' @ toStringBase 10 k) \<rparr>"

text \<open>
  The segments of \<open>DOCUMENTS_FOLDER_PATH\<close>, and the scan as the program starts it:
  at the Documents folder, with an empty Set.
\<close>

definition docs_segs :: "env \<Rightarrow> string list" where
  "docs_segs E = normalizeSegments False [] (split_sep (homedir E)) @ [''Documents'']"

definition scan_documents :: "nat \<Rightarrow> env \<Rightarrow> node \<Rightarrow> error + scan_state" where
  "scan_documents n E root =
     getAllDirectoriesRecursively n E (posix root (cwd E)) (DOCUMENTS_FOLDER_PATH E)
       \<lparr>allDirectories = [], uuid_calls = 0\<rparr>"

definition records_of :: "env \<Rightarrow> (string list \<times> node) list \<Rightarrow> directoryMetadata list" where
  "records_of E ds = map (record_of E) (List.enumerate 0 (map found_of ds))"

definition example_docs :: node where
  "example_docs = Dir (ino 493)
        [(''A'', Dir (ino 493) [(''B'', Dir (ino 448) [])]),
         (''.git'', Dir (ino 493) [(''objects'', Dir (ino 493) [])]),
         (''note.txt'', File (ino 420))]"

definition example_root :: node where
  "example_root =
     Dir (ino 493) [(''home'', Dir (ino 493) [(''u'', Dir (ino 493) [(''Documents'', example_docs)])])]"

definition example_result :: scan_state where
  "example_result =
     \<lparr>allDirectories =
        [\<lparr>uuid = ''id-0'', name = ''A'', relative_path = ''A'',
          absolute_path = ''/home/u/Documents/A'',
          last_accessed = ''2023-04-23T11:39:10.000Z'',
          last_modified = ''2023-04-23T11:46:20.000Z'',
          owner = 1000, group = 1000, permissions = ''755''\<rparr>,
         \<lparr>uuid = ''id-1'', name = ''B'', relative_path = ''A/B'',
          absolute_path = ''/home/u/Documents/A/B'',
          last_accessed = ''2023-04-23T11:39:10.000Z'',
          last_modified = ''2023-04-23T11:46:20.000Z'',
          owner = 1000, group = 1000, permissions = ''700''\<rparr>],
      uuid_calls = 2\<rparr>"

subsection \<open>The writer\<close>

text \<open>
  The disk the writer works on, kept apart from the tree that is scanned: the folders
  that exist, and the content of every file by its path. \<^verbatim>\<open>mkdirSync\<close> of a path that exists fails; a file can be opened or written
  only in a folder that exists.
\<close>

record disk =
  folders :: "string set"
  contents :: "string \<rightharpoonup> string"




text \<open>
  \<^verbatim>\<open>fs.createWriteStream(p, { flags: 'a' })\<close> followed by \<^verbatim>\<open>write\<close> calls: the file is
  created empty if it is absent, and every chunk is added at its end.
  \<^verbatim>\<open>fs.promises.writeFile(p, content)\<close> opens with the default flag \<^verbatim>\<open>'w'\<close>: the
  file is created or truncated, and holds \<open>content\<close> afterwards. \<open>folder\<close> is the
  folder the path was joined from.
\<close>

definition openAppend :: "disk \<Rightarrow> string \<Rightarrow> string \<Rightarrow> error + disk" where
  "openAppend d folder p =
     (if folder \<notin> folders d then Inl ENOENT
      else Inr (d\<lparr>contents := (contents d)(p \<mapsto> (case contents d p of None \<Rightarrow> [] | Some old \<Rightarrow> old))\<rparr>))"

definition streamWrite :: "disk \<Rightarrow> string \<Rightarrow> string \<Rightarrow> disk" where
  "streamWrite d p chunk =
     d\<lparr>contents := (contents d)(p \<mapsto> (case contents d p of None \<Rightarrow> [] | Some old \<Rightarrow> old) @ chunk)\<rparr>"

definition writeFile :: "disk \<Rightarrow> string \<Rightarrow> string \<Rightarrow> string \<Rightarrow> error + disk" where
  "writeFile d folder p content =
     (if folder \<notin> folders d then Inl ENOENT
      else Inr (d\<lparr>contents := (contents d)(p \<mapsto> content)\<rparr>))"

definition newline :: string where
  "newline = [CHR 0x0A]"

definition csv_header :: string where
  "csv_header =
     ''uuid,name,relative_path,absolute_path,last_accessed,last_modified,owner,group,permissions'' @ newline"

text \<open>The template literal of the loop body: numbers are rendered in decimal.\<close>

definition csvLine :: "directoryMetadata \<Rightarrow> string" where
  "csvLine directory =
     uuid directory @ '','' @ name directory @ '','' @ relative_path directory @ '','' @
     absolute_path directory @ '','' @ last_accessed directory @ '','' @
     last_modified directory @ '','' @ toStringBase 10 (owner directory) @ '','' @
     toStringBase 10 (group directory) @ '','' @ permissions directory @ newline"

fun writeLines :: "disk \<Rightarrow> string \<Rightarrow> directoryMetadata list \<Rightarrow> disk" where
  "writeLines d p [] = d"
| "writeLines d p (directory # directories) = writeLines (streamWrite d p (csvLine directory)) p directories"

text \<open>
  \<^verbatim>\<open>JSON.stringify(value, null, 2)\<close> for an array of the records: strings are quoted
  and escaped, numbers are decimal, and every level is indented by two spaces.
\<close>

fun hex_digit :: "nat \<Rightarrow> char" where
  "hex_digit n = (if n < 10 then char_of (48 + n) else char_of (87 + n))"

definition json_escape :: "char \<Rightarrow> string" where
  "json_escape c =
     (let n = (of_char c :: nat) in
      if c = CHR 0x22 then [CHR 0x5C, CHR 0x22]
      else if c = CHR 0x5C then [CHR 0x5C, CHR 0x5C]
      else if n = 8 then [CHR 0x5C, CHR ''b'']
      else if n = 12 then [CHR 0x5C, CHR ''f'']
      else if n = 10 then [CHR 0x5C, CHR ''n'']
      else if n = 13 then [CHR 0x5C, CHR ''r'']
      else if n = 9 then [CHR 0x5C, CHR ''t'']
      else if n < 32 then [CHR 0x5C, CHR ''u'', CHR ''0'', CHR ''0'', hex_digit (n div 16), hex_digit (n mod 16)]
      else [c])"

definition json_string :: "string \<Rightarrow> string" where
  "json_string s = CHR 0x22 # concat (map json_escape s) @ [CHR 0x22]"

fun intercalate :: "string \<Rightarrow> string list \<Rightarrow> string" where
  "intercalate sep [] = []"
| "intercalate sep [x] = x"
| "intercalate sep (x # y # ys) = x @ sep @ intercalate sep (y # ys)"

definition json_object :: "directoryMetadata \<Rightarrow> string" where
  "json_object r =
     ''{'' @ newline @
     intercalate ('','' @ newline)
       (map (\<lambda>(k, v). ''    '' @ json_string k @ '': '' @ v)
         [(''uuid'', json_string (uuid r)),
          (''name'', json_string (name r)),
          (''relative_path'', json_string (relative_path r)),
          (''absolute_path'', json_string (absolute_path r)),
          (''last_accessed'', json_string (last_accessed r)),
          (''last_modified'', json_string (last_modified r)),
          (''owner'', toStringBase 10 (owner r)),
          (''group'', toStringBase 10 (group r)),
          (''permissions'', json_string (permissions r))]) @
     newline @ ''  }''"

definition JSON_stringify :: "directoryMetadata list \<Rightarrow> string" where
  "JSON_stringify directories =
     (if directories = [] then ''[]''
      else ''['' @ newline @
           intercalate ('','' @ newline) (map (\<lambda>r. ''  '' @ json_object r) directories) @
           newline @ '']'')"

text \<open>\<^verbatim>\<open>writeDirectoriesToFile(directories, timestamp)\<close>.\<close>

definition csvFilePath :: "env \<Rightarrow> string \<Rightarrow> string" where
  "csvFilePath E timestamp = path_join (DATA_FOLDER_PATH E) (''directories_'' @ timestamp @ ''.csv'')"

definition jsonFilePath :: "env \<Rightarrow> string \<Rightarrow> string" where
  "jsonFilePath E timestamp = path_join (DATA_FOLDER_PATH E) (''directories_'' @ timestamp @ ''.json'')"

definition writeDirectoriesToFile ::
    "env \<Rightarrow> disk \<Rightarrow> directoryMetadata list \<Rightarrow> string \<Rightarrow> error + disk" where
  "writeDirectoriesToFile E d directories timestamp =
     (case openAppend d (DATA_FOLDER_PATH E) (csvFilePath E timestamp) of
        Inl e \<Rightarrow> Inl e
      | Inr d1 \<Rightarrow>
          let d2 = streamWrite d1 (csvFilePath E timestamp) csv_header;
              d3 = writeLines d2 (csvFilePath E timestamp) directories;
              jsonContent = JSON_stringify directories
          in writeFile d3 (DATA_FOLDER_PATH E) (jsonFilePath E timestamp) jsonContent)"

text \<open>
  \<^verbatim>\<open>getAllDirectoriesInDocumentsFolder()\<close>: the data folder is made, the Documents
  folder of the tree is scanned, and the records are written under the time of the run,
  \<open>now\<close> being \<^verbatim>\<open>new Date().toISOString()\<close>. The call of \<^verbatim>\<open>main()\<close> in between only
  logs to the console. The tree is the file system as the scan reads it: where the working
  directory lies below the Documents folder, the data folder is one of its directories.
\<close>

definition timestamp_of :: "string \<Rightarrow> string" where
  "timestamp_of now = map (\<lambda>c. if c = CHR '':'' then CHR ''-'' else c) now"







definition example_now :: string where
  "example_now = ''2023-04-23T11:50:00.000Z''"

definition data_disk :: disk where
  "data_disk = \<lparr>folders = {DATA_FOLDER_PATH example_env}, contents = Map.empty\<rparr>"

definition previous_disk :: disk where
  "previous_disk =
     \<lparr>folders = {DATA_FOLDER_PATH example_env},
      contents = (\<lambda>p. if p = csvFilePath example_env (timestamp_of example_now) \<or>
                          p = jsonFilePath example_env (timestamp_of example_now)
                       then Some ''previous run'' else None)\<rparr>"

definition symlink_root :: node where
  "symlink_root =
     Dir (ino 493) [(''home'', Dir (ino 493) [(''u'', Dir (ino 493)
        [(''Documents'', Dir (ino 493) [(''L'', Symlink (ino 511) ''/home/u/T'')]),
         (''T'', Dir (ino 493) [(''X'', Dir (ino 493) [])])])])]"

section \<open>Properties\<close>

subsection \<open>The symbolic link branch\<close>

lemma isDirectory_not_isSymbolicLink: "isDirectory st \<Longrightarrow> \<not> isSymbolicLink st"
  by (simp add: isDirectory_def isSymbolicLink_def S_IFDIR_def S_IFLNK_def)

subsection \<open>Paths\<close>

lemma split_sep_nonempty [simp]: "split_sep s \<noteq> []"
  by (induction s) auto

lemma split_sep_append: "split_sep (a @ CHR ''/'' # b) = split_sep a @ split_sep b"
  by (induction a) auto

lemma split_sep_noslash: "CHR ''/'' \<notin> set s \<Longrightarrow> split_sep s = [s]"
  by (induction s) auto

lemma split_sep_join:
  "ss \<noteq> [] \<Longrightarrow> \<forall>s \<in> set ss. CHR ''/'' \<notin> set s \<Longrightarrow> split_sep (join_sep ss) = ss"
proof (induction ss rule: join_sep.induct)
  case (3 s t ss)
  then show ?case by (simp add: split_sep_append split_sep_noslash)
qed (simp_all add: split_sep_noslash)

lemma split_abs_path:
  "d \<noteq> [] \<Longrightarrow> list_all valid_name d \<Longrightarrow> split_sep (abs_path d) = [] # d"
  using split_sep_append [of "[]" "join_sep d"]
  by (simp add: abs_path_def split_sep_join list_all_iff valid_name_def)

lemma normalizeSegments_valid:
  "list_all valid_name ss \<Longrightarrow> normalizeSegments a res ss = res @ ss"
  by (induction ss arbitrary: res) (auto simp: valid_name_def)

lemma join_sep_eq_Nil: "list_all valid_name ss \<Longrightarrow> join_sep ss = [] \<longleftrightarrow> ss = []"
  by (induction ss rule: join_sep.induct) (auto simp: valid_name_def)

lemma path_join_abs:
  assumes "d \<noteq> []" "list_all valid_name d" "valid_name f"
  shows "path_join (abs_path d) f = abs_path (d @ [f])"
proof -
  have f0: "f \<noteq> []" "CHR ''/'' \<notin> set f"
    using assms(3) by (simp_all add: valid_name_def)
  have f1: "last f \<noteq> CHR ''/''"
    using f0 last_in_set by metis
  have f: "f \<noteq> []" "last f \<noteq> CHR ''/''" "split_sep f = [f]"
    using f0 f1 by (simp_all add: split_sep_noslash)
  have sp: "split_sep (abs_path d @ CHR ''/'' # f) = [] # d @ [f]"
    by (simp add: split_sep_append split_abs_path assms f)
  have ns: "normalizeSegments False [] ([] # d @ [f]) = d @ [f]"
    using normalizeSegments_valid [of "d @ [f]" False "[]"] assms by simp
  have ne: "join_sep (d @ [f]) \<noteq> []"
    using join_sep_eq_Nil [of "d @ [f]"] assms by simp
  show ?thesis
    using f sp ns ne
    by (simp add: path_join_def path_normalize_def normalizeString_def isAbsolute_def abs_path_def Let_def)
qed

lemma node_at_append:
  "node_at nd (a @ b) = (case node_at nd a of None \<Rightarrow> None | Some m \<Rightarrow> node_at m b)"
  by (induction nd a rule: node_at.induct) (auto split: option.splits)

lemma node_at_snoc_Dir:
  "node_at root (dir @ s # ss) = Some nd \<Longrightarrow>
   \<exists>i entries c. node_at root dir = Some (Dir i entries) \<and> map_of entries s = Some c \<and> node_at c ss = Some nd"
  by (cases "node_at root dir"; cases "the (node_at root dir)")
     (auto simp: node_at_append split: option.splits)

lemma walk_real:
  "node_at root (dir @ ss) = Some (Dir i entries) \<Longrightarrow> list_all valid_name ss \<Longrightarrow>
   walk k root dir ss = Inr (dir @ ss)"
proof (induction ss arbitrary: dir)
  case Nil
  show ?case by simp
next
  case (Cons s ss)
  from node_at_snoc_Dir [OF Cons.prems(1)] obtain j es c where
    c: "node_at root dir = Some (Dir j es)" "map_of es s = Some c" "node_at c ss = Some (Dir i entries)"
    by blast
  have cd: "\<exists>i' es'. c = Dir i' es'"
    using c(3) by (cases c; cases ss) auto
  have "node_at root ((dir @ [s]) @ ss) = Some (Dir i entries)"
    using Cons.prems(1) by simp
  with Cons.IH [of "dir @ [s]"] Cons.prems(2)
  have "walk k root (dir @ [s]) ss = Inr (dir @ s # ss)" by simp
  with c cd Cons.prems(2) show ?case
    by (auto simp: valid_name_def)
qed

lemma walk_append_real:
  "walk k root dir a = Inr dir' \<Longrightarrow> node_at root (dir' @ b) = Some (Dir i entries) \<Longrightarrow>
   list_all valid_name b \<Longrightarrow> walk k root dir (a @ b) = Inr (dir' @ b)"
proof (induction k root dir a rule: walk.induct)
  case (1 k root dir)
  then show ?case by (simp add: walk_real)
next
  case (2 k root dir s ss)
  show ?case
  proof (cases "s = [] \<or> s = ''.''")
    case True
    with 2 show ?thesis by simp
  next
    case ndot: False
    show ?thesis
    proof (cases "s = ''..''")
      case True
      with 2 ndot show ?thesis by simp
    next
      case False
      show ?thesis
      proof (cases "lookup_child root dir s")
        case (Inl e)
        with 2 ndot False show ?thesis by simp
      next
        case (Inr c)
        show ?thesis
        proof (cases c)
          case (File j)
          with Inr 2 ndot False have ss: "ss = []" and d: "dir' = dir @ [s]"
            by (auto split: if_splits)
          have "node_at root dir' = Some (File j)"
            using Inr File d by (auto simp: node_at_append split: option.splits node.splits)
          with "2.prems"(2) have "b = []"
            by (cases b) (auto simp: node_at_append)
          with 2 ndot False Inr File ss d show ?thesis by simp
        next
          case (Dir j es)
          with Inr 2 ndot False show ?thesis by simp
        next
          case (Symlink j target)
          with Inr 2 ndot False show ?thesis
            by (cases k) auto
        qed
      qed
    qed
  qed
qed



subsection \<open>The scan is the walk followed by the making of the records\<close>

lemma add_all_Nil: "add_all E s [] = s"
  by (simp add: add_all_def)

lemma add_all_append: "add_all E (add_all E s xs) ys = add_all E s (xs @ ys)"
  by (simp add: add_all_def enumerate_append_eq add.assoc)

lemma add_all_Cons:
  "add_all E s (x # xs) =
     add_all E (s\<lparr>uuid_calls := Suc (uuid_calls s), allDirectories := allDirectories s @ [record_of E (uuid_calls s, x)]\<rparr>) xs"
  by (simp add: add_all_def)

lemma scan_files_visit:
  assumes rec: "\<And>p s. getAllDirectoriesRecursively n E fs p s = (case visit n fs p of Inl e \<Rightarrow> Inl e | Inr xs \<Rightarrow> Inr (add_all E s xs))"
  shows "scan_files n E fs p files s = (case visit_files n fs p files of Inl e \<Rightarrow> Inl e | Inr xs \<Rightarrow> Inr (add_all E s xs))"
proof (induction files arbitrary: s)
  case Nil
  show ?case by (simp add: add_all_Nil)
next
  case (Cons f files)
  show ?case
  proof (cases "lstat fs (path_join p f)")
    case (Inl e)
    then show ?thesis by simp
  next
    case (Inr st)
    show ?thesis
    proof (cases "isDirectory st \<and> \<not> (startsWith f ''.'' \<or> f \<in> set IGNORED_DIRECTORIES)")
      case False
      with Inr Cons.IH show ?thesis by (auto simp: Let_def)
    next
      case True
      then have nl: "\<not> isSymbolicLink st" by (simp add: isDirectory_not_isSymbolicLink)
      show ?thesis
      proof (cases "visit n fs (path_join p f)")
        case (Inl e)
        with Inr True nl rec show ?thesis by (simp add: Let_def)
      next
        case xs: (Inr xs)
        show ?thesis
        proof (cases "visit_files n fs p files")
          case (Inl e)
          with Inr True nl rec xs Cons.IH show ?thesis by (simp add: Let_def)
        next
          case ys: (Inr ys)
          with Inr True nl rec xs Cons.IH show ?thesis
            by (simp add: Let_def add_all_append add_all_Cons record_of_def)
        qed
      qed
    qed
  qed
qed

lemma scan_visit:
  "getAllDirectoriesRecursively n E fs p s = (case visit n fs p of Inl e \<Rightarrow> Inl e | Inr xs \<Rightarrow> Inr (add_all E s xs))"
proof (induction n arbitrary: p s)
  case 0
  show ?case by simp
next
  case (Suc n)
  show ?case
    by (cases "readdir fs p") (simp_all add: scan_files_visit [OF Suc.IH])
qed

subsection \<open>The scan of a tree\<close>

lemma isDirectory_stats_of: "isDirectory (stats_of c) \<longleftrightarrow> (\<exists>i entries. c = Dir i entries)"
proof -
  have m: "(4095 :: 32 word) AND 61440 = 0" by simp
  have z: "(x AND 4095) AND (61440 :: 32 word) = 0" for x :: "32 word"
    by (simp add: and.assoc)
  show ?thesis
    by (cases c)
       (simp_all add: isDirectory_def stats_of_def S_IFMT_def S_IFDIR_def S_IFREG_def S_IFLNK_def
          bit.conj_disj_distrib2 z)
qed

lemma isAbsolute_abs_path [simp]: "isAbsolute (abs_path d)"
  by (simp add: isAbsolute_def abs_path_def)

lemma tree_dirs_Dir: "tree_dirs d (Dir i entries) = concat (map (entry_dirs d) entries)"
  by (simp add: entry_dirs_def)

declare tree_dirs.simps(1) [simp del]

lemma readdir_tree:
  assumes "d \<noteq> []" "list_all valid_name d" "list_all valid_name segs"
    and "walk MAXSYMLINKS root [] d = Inr d'"
    and "node_at root (d' @ segs) = Some (Dir i entries)"
  shows "readdir (posix root wd) (abs_path (d @ segs)) = Inr (map fst entries)"
proof -
  have sp: "from_cwd wd (abs_path (d @ segs)) = [] # d @ segs"
    using assms(1-3) by (simp add: from_cwd_def split_abs_path)
  have "walk MAXSYMLINKS root [] (d @ segs) = Inr (d' @ segs)"
    using assms(3-5) by (rule walk_append_real [rotated -1])
  then show ?thesis
    using sp assms(5) by (simp add: posix_def fs_readdir_def)
qed

lemma lstat_tree:
  assumes "d \<noteq> []" "list_all valid_name d" "list_all valid_name segs"
    and "walk MAXSYMLINKS root [] d = Inr d'"
    and "node_at root (d' @ segs) = Some (Dir i entries)"
    and "map_of entries f = Some c" "valid_name f"
  shows "lstat (posix root wd) (abs_path (d @ segs @ [f])) = Inr (stats_of c)"
proof -
  have sp: "from_cwd wd (abs_path (d @ segs @ [f])) = [] # d @ segs @ [f]"
    using assms(1-3,7) by (simp add: from_cwd_def split_abs_path)
  have w: "walk MAXSYMLINKS root [] (d @ segs) = Inr (d' @ segs)"
    using assms(3-5) by (rule walk_append_real [rotated -1])
  have bl: "butlast ([] # d @ segs @ [f]) = [] # d @ segs"
    using butlast_snoc [of "[] # d @ segs" f] by simp
  have f: "f \<noteq> []" "f \<noteq> ''.''" "f \<noteq> ''..''"
    using assms(7) by (simp_all add: valid_name_def)
  show ?thesis
    using sp w bl f assms(5,6)
    by (simp add: posix_def fs_lstat_def Let_def del: butlast.simps)
qed

lemma depth_child: "x \<in> set entries \<Longrightarrow> depth (snd x) < depth (Dir i entries)"
  by (induction entries) auto

lemma visit_files_entries:
  assumes "\<And>f c. (f, c) \<in> set es \<Longrightarrow>
             path_join p f = abs_path (d @ [f]) \<and> lstat fs (abs_path (d @ [f])) = Inr (stats_of c)"
    and "\<And>f j sub. (f, Dir j sub) \<in> set es \<Longrightarrow> \<not> skipped f \<Longrightarrow>
             visit n fs (abs_path (d @ [f])) = Inr (map found_of (tree_dirs (d @ [f]) (Dir j sub)))"
  shows "visit_files n fs p (map fst es) = Inr (map found_of (concat (map (entry_dirs d) es)))"
  using assms
proof (induction es)
  case Nil
  show ?case by simp
next
  case (Cons x es)
  obtain f c where x: "x = (f, c)" by (cases x)
  have rest: "visit_files n fs p (map fst es) = Inr (map found_of (concat (map (entry_dirs d) es)))"
  proof (rule Cons.IH)
    fix g c' assume "(g, c') \<in> set es"
    then show "path_join p g = abs_path (d @ [g]) \<and> lstat fs (abs_path (d @ [g])) = Inr (stats_of c')"
      using Cons.prems(1) [of g c'] by simp
  next
    fix g j sub assume "(g, Dir j sub) \<in> set es" "\<not> skipped g"
    then show "visit n fs (abs_path (d @ [g])) = Inr (map found_of (tree_dirs (d @ [g]) (Dir j sub)))"
      using Cons.prems(2) [of g j sub] by simp
  qed
  have st: "path_join p f = abs_path (d @ [f])" "lstat fs (abs_path (d @ [f])) = Inr (stats_of c)"
    using Cons.prems(1) [of f c] x by simp_all
  show ?case
  proof (cases "\<exists>j sub. c = Dir j sub \<and> \<not> skipped f")
    case True
    then obtain j sub where c: "c = Dir j sub" "\<not> skipped f" by blast
    have "visit n fs (abs_path (d @ [f])) = Inr (map found_of (tree_dirs (d @ [f]) (Dir j sub)))"
      using Cons.prems(2) [of f j sub] x c by simp
    with x c st rest show ?thesis
      using isDirectory_stats_of [of c]
      by (simp add: entry_dirs_def skipped_def found_of_def)
  next
    case False
    with x st rest show ?thesis
      using isDirectory_stats_of [of c]
      by (cases c) (auto simp: entry_dirs_def skipped_def)
  qed
qed

lemma visit_tree:
  assumes "d \<noteq> []" "list_all valid_name d" "walk MAXSYMLINKS root [] d = Inr d'"
  shows "list_all valid_name segs \<Longrightarrow> node_at root (d' @ segs) = Some (Dir i entries) \<Longrightarrow>
         wf_node (Dir i entries) \<Longrightarrow> depth (Dir i entries) \<le> n \<Longrightarrow>
         visit n (posix root wd) (abs_path (d @ segs)) =
           Inr (map found_of (tree_dirs (d @ segs) (Dir i entries)))"
proof (induction n arbitrary: segs i entries)
  case 0
  then show ?case by simp
next
  case (Suc n)
  have rd: "readdir (posix root wd) (abs_path (d @ segs)) = Inr (map fst entries)"
    by (rule readdir_tree [OF assms(1,2) Suc.prems(1) assms(3) Suc.prems(2)])
  have dist: "distinct (map fst entries)" and val: "\<And>x. x \<in> set entries \<Longrightarrow> valid_name (fst x)"
    and wfc: "\<And>x. x \<in> set entries \<Longrightarrow> wf_node (snd x)"
    using Suc.prems(3) by simp_all
  have vds: "d @ segs \<noteq> []" "list_all valid_name (d @ segs)"
    using assms Suc.prems(1) by simp_all
  have "visit_files n (posix root wd) (abs_path (d @ segs)) (map fst entries) =
          Inr (map found_of (concat (map (entry_dirs (d @ segs)) entries)))"
  proof (rule visit_files_entries)
    fix f c assume fc: "(f, c) \<in> set entries"
    then have m: "map_of entries f = Some c" using dist by simp
    have vf: "valid_name f" using val [OF fc] by simp
    have "lstat (posix root wd) (abs_path (d @ segs @ [f])) = Inr (stats_of c)"
      using assms(1,2) Suc.prems(1) assms(3) Suc.prems(2) m vf by (rule lstat_tree)
    then show "path_join (abs_path (d @ segs)) f = abs_path ((d @ segs) @ [f]) \<and>
               lstat (posix root wd) (abs_path ((d @ segs) @ [f])) = Inr (stats_of c)"
      using path_join_abs [OF vds vf] by simp
  next
    fix f j sub assume fc: "(f, Dir j sub) \<in> set entries" and "\<not> skipped f"
    then have m: "map_of entries f = Some (Dir j sub)" using dist by simp
    have vf: "valid_name f" using val [OF fc] by simp
    have na: "node_at root (d' @ segs @ [f]) = Some (Dir j sub)"
      using Suc.prems(2) m node_at_append [of root "d' @ segs" "[f]"] by simp
    have dp: "depth (Dir j sub) \<le> n"
      using depth_child [OF fc, of i] Suc.prems(4) by simp
    have "visit n (posix root wd) (abs_path (d @ segs @ [f])) =
            Inr (map found_of (tree_dirs (d @ segs @ [f]) (Dir j sub)))"
      using Suc.IH [of "segs @ [f]" j sub] Suc.prems(1) vf na wfc [OF fc] dp by simp
    then show "visit n (posix root wd) (abs_path ((d @ segs) @ [f])) =
            Inr (map found_of (tree_dirs ((d @ segs) @ [f]) (Dir j sub)))"
      by simp
  qed
  with rd show ?case by (simp add: tree_dirs_Dir)
qed

subsection \<open>What the scan records\<close>

lemma visit_files_joined:
  assumes "\<And>p xs. visit n fs p = Inr xs \<Longrightarrow>
             \<forall>(q, f, st) \<in> set xs. \<exists>dir. q = path_join dir f \<and> lstat fs q = Inr st \<and> isDirectory st"
  shows "visit_files n fs p files = Inr xs \<Longrightarrow>
         \<forall>(q, f, st) \<in> set xs. \<exists>dir. q = path_join dir f \<and> lstat fs q = Inr st \<and> isDirectory st"
proof (induction files arbitrary: xs)
  case Nil
  then show ?case by simp
next
  case (Cons g files)
  show ?case
  proof (cases "lstat fs (path_join p g)")
    case (Inl e)
    with Cons.prems show ?thesis by simp
  next
    case (Inr st)
    show ?thesis
    proof (cases "isDirectory st \<and> \<not> (startsWith g ''.'' \<or> g \<in> set IGNORED_DIRECTORIES)")
      case False
      with Inr Cons show ?thesis by auto
    next
      case True
      with Inr Cons.prems obtain ys zs where
        ys: "visit n fs (path_join p g) = Inr ys" and zs: "visit_files n fs p files = Inr zs"
        and xs: "xs = (path_join p g, g, st) # ys @ zs"
        by (auto split: sum.splits)
      from assms [OF ys] Cons.IH [OF zs] Inr True show ?thesis
        unfolding xs by auto
    qed
  qed
qed

lemma visit_joined:
  "visit n fs p = Inr xs \<Longrightarrow>
   \<forall>(q, f, st) \<in> set xs. \<exists>dir. q = path_join dir f \<and> lstat fs q = Inr st \<and> isDirectory st"
proof (induction n arbitrary: p xs)
  case 0
  then show ?case by simp
next
  case (Suc n)
  from Suc.prems obtain files where "visit_files n fs p files = Inr xs"
    by (auto split: sum.splits)
  then show ?case
    by (rule visit_files_joined [rotated]) (rule Suc.IH)
qed

lemma visit_files_realpath:
  assumes "\<And>p. visit n (fs\<lparr>realpath := rp\<rparr>) p = visit n fs p"
  shows "visit_files n (fs\<lparr>realpath := rp\<rparr>) p files = visit_files n fs p files"
  by (induction files) (simp_all add: assms cong: sum.case_cong if_cong)

lemma visit_realpath: "visit n (fs\<lparr>realpath := rp\<rparr>) p = visit n fs p"
  by (induction n arbitrary: p) (simp_all add: visit_files_realpath cong: sum.case_cong)

lemma enumerate_snd_mem: "(k, x) \<in> set (List.enumerate c xs) \<Longrightarrow> x \<in> set xs"
  by (metis enumerate_eq_zip in_set_zipE)

lemma scan_new_records:
  "getAllDirectoriesRecursively n E fs p s = Inr s' \<Longrightarrow>
   \<exists>xs. visit n fs p = Inr xs \<and> s' = add_all E s xs"
  by (auto simp: scan_visit split: sum.splits)

lemma record_of_fields [simp]:
  "absolute_path (record_of E (k, q, f, st)) = q"
  "name (record_of E (k, q, f, st)) = f"
  "uuid (record_of E (k, q, f, st)) = uuidv4 E k"
  "relative_path (record_of E (k, q, f, st)) = path_relative (cwd E) (DOCUMENTS_FOLDER_PATH E) q"
  by (simp_all add: record_of_def make_metadata_def)

text \<open>
  C9: the symbolic link branch of the scan is unreachable. The metadata of an entry comes
  from \<^verbatim>\<open>lstat\<close>, and no \<^verbatim>\<open>fs.Stats\<close> is both a directory and a symbolic link; so
  whatever \<^verbatim>\<open>realpath\<close> would return, the scan returns the same, and the
  \<open>absolute_path\<close> of every record it adds is the joined path of the entry, which
  \<^verbatim>\<open>lstat\<close> reports as a directory and not as a link.
\<close>

theorem realpath_branch_unreachable:
  "(isDirectory st \<longrightarrow> \<not> isSymbolicLink st) \<and>
   getAllDirectoriesRecursively n E (fs\<lparr>realpath := rp\<rparr>) p s = getAllDirectoriesRecursively n E fs p s \<and>
   (getAllDirectoriesRecursively n E fs p s = Inr s' \<longrightarrow>
      (\<forall>r \<in> set (drop (length (allDirectories s)) (allDirectories s')).
         \<exists>dir fileStat. absolute_path r = path_join dir (name r) \<and>
            lstat fs (path_join dir (name r)) = Inr fileStat \<and>
            isDirectory fileStat \<and> \<not> isSymbolicLink fileStat))"
proof (intro conjI impI ballI)
  assume "isDirectory st" then show "\<not> isSymbolicLink st"
    by (rule isDirectory_not_isSymbolicLink)
next
  show "getAllDirectoriesRecursively n E (fs\<lparr>realpath := rp\<rparr>) p s = getAllDirectoriesRecursively n E fs p s"
    by (simp add: scan_visit visit_realpath)
next
  fix r
  assume run: "getAllDirectoriesRecursively n E fs p s = Inr s'"
    and r: "r \<in> set (drop (length (allDirectories s)) (allDirectories s'))"
  from scan_new_records [OF run] obtain xs where xs: "visit n fs p = Inr xs" "s' = add_all E s xs"
    by blast
  from r xs(2) obtain k x where x: "x \<in> set xs" and rx: "r = record_of E (k, x)"
    by (auto simp: add_all_def dest: enumerate_snd_mem)
  obtain q f fileStat where xq: "x = (q, f, fileStat)" by (cases x)
  from visit_joined [OF xs(1)] x xq obtain dir where
    "q = path_join dir f" "lstat fs q = Inr fileStat" "isDirectory fileStat" by auto
  then show "\<exists>dir fileStat. absolute_path r = path_join dir (name r) \<and>
            lstat fs (path_join dir (name r)) = Inr fileStat \<and>
            isDirectory fileStat \<and> \<not> isSymbolicLink fileStat"
    using rx xq isDirectory_not_isSymbolicLink by auto
qed

subsection \<open>The scan of the Documents folder\<close>

lemma normalizeSegments_append:
  "normalizeSegments a res (xs @ ys) = normalizeSegments a (normalizeSegments a res xs) ys"
  by (induction xs arbitrary: res) auto

lemma split_sep_no_slash: "s \<in> set (split_sep p) \<Longrightarrow> CHR ''/'' \<notin> set s"
proof (induction p arbitrary: s)
  case Nil
  then show ?case by simp
next
  case (Cons c p)
  then show ?case
    by (cases "split_sep p") (auto split: if_splits)
qed

lemma normalizeSegments_False_valid:
  "list_all valid_name res \<Longrightarrow> \<forall>s \<in> set ss. CHR ''/'' \<notin> set s \<Longrightarrow>
   list_all valid_name (normalizeSegments False res ss)"
proof (induction ss arbitrary: res)
  case Nil
  then show ?case by simp
next
  case (Cons s ss)
  have bl: "list_all valid_name (butlast res)"
    using Cons.prems(1) by (auto simp: list_all_iff dest: in_set_butlastD)
  show ?case
  proof (cases "s = [] \<or> s = ''.''")
    case True
    with Cons show ?thesis by auto
  next
    case False
    show ?thesis
    proof (cases "s = ''..''")
      case True
      with Cons.IH [of "butlast res"] Cons.IH [of res] bl Cons.prems show ?thesis by auto
    next
      case F2: False
      have "valid_name s" using False F2 Cons.prems(2) by (simp add: valid_name_def)
      with Cons.IH [of "res @ [s]"] Cons.prems False F2 show ?thesis by auto
    qed
  qed
qed

lemma docs_segs_valid: "list_all valid_name (docs_segs E)" "docs_segs E \<noteq> []"
  using normalizeSegments_False_valid [of "[]" "split_sep (homedir E)"] split_sep_no_slash
  by (auto simp: docs_segs_def valid_name_def)

lemma DOCUMENTS_FOLDER_PATH_abs:
  assumes "isAbsolute (homedir E)"
  shows "DOCUMENTS_FOLDER_PATH E = abs_path (docs_segs E)"
proof -
  let ?h = "homedir E"
  have h: "?h \<noteq> []" using assms by (simp add: isAbsolute_def)
  have sp: "split_sep (?h @ CHR ''/'' # ''Documents'') = split_sep ?h @ [''Documents'']"
    by (simp add: split_sep_append split_sep_noslash)
  have ns: "normalizeSegments False [] (split_sep ?h @ [''Documents'']) = docs_segs E"
    by (simp add: normalizeSegments_append docs_segs_def)
  have ne: "join_sep (docs_segs E) \<noteq> []"
    using join_sep_eq_Nil [OF docs_segs_valid(1)] docs_segs_valid(2) by simp
  have ab: "isAbsolute (?h @ CHR ''/'' # ''Documents'')"
    using assms by (cases ?h) (simp_all add: isAbsolute_def)
  show ?thesis
    using h sp ns ne ab
    by (simp add: DOCUMENTS_FOLDER_PATH_def path_join_def path_normalize_def normalizeString_def
        abs_path_def Let_def)
qed

lemma wf_node_at: "wf_node root \<Longrightarrow> node_at root p = Some c \<Longrightarrow> wf_node c"
proof (induction root p rule: node_at.induct)
  case (2 i entries s ss)
  then show ?case
    by (auto split: option.splits dest!: map_of_SomeD)
qed simp_all

lemma visit_files_mono:
  assumes "\<And>p xs. visit n fs p = Inr xs \<Longrightarrow> visit (Suc n) fs p = Inr xs"
  shows "visit_files n fs p files = Inr xs \<Longrightarrow> visit_files (Suc n) fs p files = Inr xs"
proof (induction files arbitrary: xs)
  case Nil
  then show ?case by simp
next
  case (Cons g files)
  show ?case
  proof (cases "lstat fs (path_join p g)")
    case (Inl e)
    with Cons.prems show ?thesis by simp
  next
    case (Inr st)
    show ?thesis
    proof (cases "isDirectory st \<and> \<not> (startsWith g ''.'' \<or> g \<in> set IGNORED_DIRECTORIES)")
      case False
      with Inr Cons show ?thesis by auto
    next
      case True
      with Inr Cons.prems obtain ys zs where
        ys: "visit n fs (path_join p g) = Inr ys" and zs: "visit_files n fs p files = Inr zs"
        and xs: "xs = (path_join p g, g, st) # ys @ zs"
        by (auto split: sum.splits)
      from assms [OF ys] Cons.IH [OF zs] Inr True xs show ?thesis
        by simp
    qed
  qed
qed

lemma visit_Suc: "visit n fs p = Inr xs \<Longrightarrow> visit (Suc n) fs p = Inr xs"
proof (induction n arbitrary: p xs)
  case 0
  then show ?case by simp
next
  case (Suc n)
  from Suc.prems obtain files where f: "readdir fs p = Inr files" "visit_files n fs p files = Inr xs"
    by (auto split: sum.splits)
  have "visit_files (Suc n) fs p files = Inr xs"
    using f(2) by (rule visit_files_mono [rotated]) (rule Suc.IH)
  with f(1) show ?case by simp
qed

lemma visit_mono: "visit n fs p = Inr xs \<Longrightarrow> n \<le> m \<Longrightarrow> visit m fs p = Inr xs"
  by (induction m) (auto simp: le_Suc_eq dest: visit_Suc simp del: visit.simps)

lemma readdir_tree_inv:
  assumes "d \<noteq> []" "list_all valid_name d"
    and "readdir (posix root wd) (abs_path d) = Inr files"
  shows "\<exists>d' i entries. walk MAXSYMLINKS root [] d = Inr d' \<and> node_at root d' = Some (Dir i entries)"
proof -
  have sp: "from_cwd wd (abs_path d) = [] # d"
    using assms(1,2) by (simp add: from_cwd_def split_abs_path)
  from assms(3) sp show ?thesis
    by (auto simp: posix_def fs_readdir_def split: sum.splits option.splits node.splits)
qed

lemma scan_documents_tree:
  assumes "isAbsolute (homedir E)" "wf_node root"
    and "walk MAXSYMLINKS root [] (docs_segs E) = Inr d'"
    and "node_at root d' = Some (Dir i entries)"
    and "depth (Dir i entries) \<le> n"
  shows "scan_documents n E root =
           Inr \<lparr>allDirectories = records_of E (tree_dirs (docs_segs E) (Dir i entries)),
                uuid_calls = length (tree_dirs (docs_segs E) (Dir i entries))\<rparr>"
proof -
  have "visit n (posix root (cwd E)) (abs_path (docs_segs E @ [])) =
          Inr (map found_of (tree_dirs (docs_segs E @ []) (Dir i entries)))"
    using docs_segs_valid(2) docs_segs_valid(1) assms(3)
  proof (rule visit_tree)
    show "list_all valid_name []" by simp
    show "node_at root (d' @ []) = Some (Dir i entries)" using assms(4) by simp
    show "wf_node (Dir i entries)" using assms(2,4) by (rule wf_node_at)
    show "depth (Dir i entries) \<le> n" by fact
  qed
  then show ?thesis
    by (simp add: scan_documents_def scan_visit DOCUMENTS_FOLDER_PATH_abs [OF assms(1)]
        add_all_def records_of_def)
qed

lemma scan_documents_returns:
  assumes "isAbsolute (homedir E)" "wf_node root"
    and "scan_documents n E root = Inr s"
  shows "\<exists>d' i entries. walk MAXSYMLINKS root [] (docs_segs E) = Inr d' \<and>
           node_at root d' = Some (Dir i entries) \<and>
           s = \<lparr>allDirectories = records_of E (tree_dirs (docs_segs E) (Dir i entries)),
                uuid_calls = length (tree_dirs (docs_segs E) (Dir i entries))\<rparr>"
proof -
  let ?fs = "posix root (cwd E)" and ?p = "abs_path (docs_segs E)"
  from assms(3) obtain xs where xs: "visit n ?fs ?p = Inr xs"
    by (auto simp: scan_documents_def scan_visit DOCUMENTS_FOLDER_PATH_abs [OF assms(1)] split: sum.splits)
  then obtain files where "readdir ?fs ?p = Inr files"
    by (cases n) (auto split: sum.splits)
  from readdir_tree_inv [OF docs_segs_valid(2) docs_segs_valid(1) this]
  obtain d' i entries where d': "walk MAXSYMLINKS root [] (docs_segs E) = Inr d'"
      "node_at root d' = Some (Dir i entries)" by blast
  let ?m = "max n (depth (Dir i entries))"
  have "scan_documents ?m E root =
           Inr \<lparr>allDirectories = records_of E (tree_dirs (docs_segs E) (Dir i entries)),
                uuid_calls = length (tree_dirs (docs_segs E) (Dir i entries))\<rparr>"
    using assms(1,2) d' by (rule scan_documents_tree) simp
  moreover have "visit ?m ?fs ?p = Inr xs"
    using xs by (rule visit_mono) simp
  ultimately have "s = \<lparr>allDirectories = records_of E (tree_dirs (docs_segs E) (Dir i entries)),
                uuid_calls = length (tree_dirs (docs_segs E) (Dir i entries))\<rparr>"
    using assms(3) xs
    by (simp add: scan_documents_def scan_visit DOCUMENTS_FOLDER_PATH_abs [OF assms(1)])
  with d' show ?thesis by blast
qed

subsection \<open>A run on an example tree\<close>

declare toStringBase.simps [simp del]

lemma ex_docs_segs: "docs_segs example_env = [''home'', ''u'', ''Documents'']"
  by (simp add: docs_segs_def example_env_def)

lemma ex_absolute: "isAbsolute (homedir example_env)"
  by (simp add: example_env_def isAbsolute_def)

lemma ex_wf: "wf_node example_root"
  by (simp add: example_root_def example_docs_def valid_name_def)

lemma ex_node_at: "node_at example_root [''home'', ''u'', ''Documents''] = Some example_docs"
  by (simp add: example_root_def)

lemma ex_walk: "walk MAXSYMLINKS example_root [] [''home'', ''u'', ''Documents''] = Inr [''home'', ''u'', ''Documents'']"
  using walk_real [of example_root "[]" "[''home'', ''u'', ''Documents'']" "ino 493" _ MAXSYMLINKS] ex_node_at
  by (simp add: example_docs_def valid_name_def)

lemma ex_depth: "depth example_docs \<le> 3"
  by (simp add: example_docs_def)

lemma ex_tree_dirs:
  "tree_dirs [''home'', ''u'', ''Documents''] example_docs =
     [([''home'', ''u'', ''Documents'', ''A''], Dir (ino 493) [(''B'', Dir (ino 448) [])]),
      ([''home'', ''u'', ''Documents'', ''A'', ''B''], Dir (ino 448) [])]"
  by (simp add: example_docs_def tree_dirs_Dir entry_dirs_def skipped_def startsWith_def IGNORED_DIRECTORIES_def)

lemma ex_octal: "toStringBase 8 493 = ''755''" "toStringBase 8 448 = ''700''"
  by code_simp+

lemma ex_dec: "toStringBase 10 0 = ''0''" "toStringBase 10 (Suc 0) = ''1''" "toStringBase 10 1000 = ''1000''"
  by code_simp+

lemma ex_docs_path: "DOCUMENTS_FOLDER_PATH example_env = ''/home/u/Documents''"
  by (simp add: DOCUMENTS_FOLDER_PATH_abs ex_absolute ex_docs_segs abs_path_def)

lemma ex_relative:
  "path_relative ''/home/u/tool'' ''/home/u/Documents'' ''/home/u/Documents/A'' = ''A''"
  "path_relative ''/home/u/tool'' ''/home/u/Documents'' ''/home/u/Documents/A/B'' = ''A/B''"
  by code_simp+

lemma ex_perm: "unat ((S_IFDIR OR (493 :: 32 word)) AND 511) = 493"
   "unat ((S_IFDIR OR (448 :: 32 word)) AND 511) = 448"
  by (simp_all add: S_IFDIR_def)

lemma ex_cwd: "cwd example_env = ''/home/u/tool''" and ex_uuid: "uuidv4 example_env k = ''id-'' @ toStringBase 10 k"
  by (simp_all add: example_env_def)

lemma ex_records:
  "records_of example_env (tree_dirs [''home'', ''u'', ''Documents''] example_docs) =
     allDirectories example_result"
  unfolding ex_tree_dirs
  by (simp add: records_of_def found_of_def record_of_def make_metadata_def stats_of_def ino_def
      abs_path_def ex_docs_path ex_cwd ex_uuid ex_relative ex_octal ex_perm ex_dec example_result_def)

lemma example_scan: "scan_documents 3 example_env example_root = Inr example_result"
proof -
  have "scan_documents 3 example_env example_root =
          Inr \<lparr>allDirectories = records_of example_env (tree_dirs (docs_segs example_env) example_docs),
               uuid_calls = length (tree_dirs (docs_segs example_env) example_docs)\<rparr>"
    using ex_absolute ex_wf ex_walk ex_node_at ex_depth
    unfolding ex_docs_segs [symmetric] example_docs_def
    by (rule scan_documents_tree)
  then show ?thesis
    by (simp add: ex_docs_segs ex_records) (simp add: ex_tree_dirs example_result_def)
qed

theorem realpath_branch_unreachable_witness:
  "isDirectory (stats_of example_docs) \<and> \<not> isSymbolicLink (stats_of example_docs) \<and>
   getAllDirectoriesRecursively 3 example_env
     ((posix example_root (cwd example_env))\<lparr>realpath := \<lambda>p. Inl ENOENT\<rparr>)
     (DOCUMENTS_FOLDER_PATH example_env) \<lparr>allDirectories = [], uuid_calls = 0\<rparr> = Inr example_result \<and>
   list_all (\<lambda>r.
      \<exists>dir fileStat. absolute_path r = path_join dir (name r) \<and>
         lstat (posix example_root (cwd example_env)) (path_join dir (name r)) = Inr fileStat \<and>
         isDirectory fileStat \<and> \<not> isSymbolicLink fileStat) (allDirectories example_result)"
proof -
  note T = realpath_branch_unreachable [where st = "stats_of example_docs" and n = 3
      and E = example_env and fs = "posix example_root (cwd example_env)" and rp = "\<lambda>p. Inl ENOENT"
      and p = "DOCUMENTS_FOLDER_PATH example_env"
      and s = "\<lparr>allDirectories = [], uuid_calls = 0\<rparr>" and s' = example_result]
  have d: "isDirectory (stats_of example_docs)"
    by (simp add: isDirectory_stats_of example_docs_def)
  have run: "getAllDirectoriesRecursively 3 example_env (posix example_root (cwd example_env))
     (DOCUMENTS_FOLDER_PATH example_env) \<lparr>allDirectories = [], uuid_calls = 0\<rparr> = Inr example_result"
    using example_scan by (simp only: scan_documents_def)
  from T d have 1: "\<not> isSymbolicLink (stats_of example_docs)" by blast
  from T run have 2: "getAllDirectoriesRecursively 3 example_env
     ((posix example_root (cwd example_env))\<lparr>realpath := \<lambda>p. Inl ENOENT\<rparr>)
     (DOCUMENTS_FOLDER_PATH example_env) \<lparr>allDirectories = [], uuid_calls = 0\<rparr> = Inr example_result"
    by simp
  from T run have 3: "\<forall>r \<in> set (drop (length (allDirectories \<lparr>allDirectories = [], uuid_calls = 0\<rparr>)) (allDirectories example_result)).
      \<exists>dir fileStat. absolute_path r = path_join dir (name r) \<and>
         lstat (posix example_root (cwd example_env)) (path_join dir (name r)) = Inr fileStat \<and>
         isDirectory fileStat \<and> \<not> isSymbolicLink fileStat"
    by blast
  then have 4: "list_all (\<lambda>r.
      \<exists>dir fileStat. absolute_path r = path_join dir (name r) \<and>
         lstat (posix example_root (cwd example_env)) (path_join dir (name r)) = Inr fileStat \<and>
         isDirectory fileStat \<and> \<not> isSymbolicLink fileStat) (allDirectories example_result)"
    by (simp add: list_all_iff)
  from d 1 2 4 show ?thesis by blast
qed

subsection \<open>Paths below the Documents folder, and the directories of a tree\<close>

lemma join_sep_append:
  "a \<noteq> [] \<Longrightarrow> b \<noteq> [] \<Longrightarrow> join_sep (a @ b) = join_sep a @ CHR ''/'' # join_sep b"
proof (induction a rule: join_sep.induct)
  case (2 s)
  then show ?case by (cases b) simp_all
qed simp_all

lemma last_join_sep:
  "ss \<noteq> [] \<Longrightarrow> list_all valid_name ss \<Longrightarrow> last (join_sep ss) = last (last ss)"
proof (induction ss rule: join_sep.induct)
  case (3 s t ss)
  have "join_sep (t # ss) \<noteq> []"
    using join_sep_eq_Nil [of "t # ss"] "3.prems" by simp
  with 3 show ?case by simp
qed simp_all

lemma valid_no_slash: "list_all valid_name ss \<Longrightarrow> \<forall>s \<in> set ss. CHR ''/'' \<notin> set s"
  by (simp add: list_all_iff valid_name_def)

lemma abs_path_inj:
  assumes "list_all valid_name a" "list_all valid_name b" "abs_path a = abs_path b"
  shows "a = b"
proof -
  have j: "join_sep a = join_sep b" using assms(3) by (simp add: abs_path_def)
  show ?thesis
  proof (cases "a = []")
    case True
    then have "join_sep b = []" using j by simp
    then have "b = []" using join_sep_eq_Nil [OF assms(2)] by simp
    with True show ?thesis by simp
  next
    case False
    then have "join_sep a \<noteq> []" using join_sep_eq_Nil [OF assms(1)] by simp
    then have nb: "b \<noteq> []" using j by auto
    have "split_sep (join_sep a) = a"
      using False valid_no_slash [OF assms(1)] by (rule split_sep_join)
    moreover have "split_sep (join_sep b) = b"
      using nb valid_no_slash [OF assms(2)] by (rule split_sep_join)
    ultimately show ?thesis using j by metis
  qed
qed

lemma normalize_abs_segs:
  "list_all valid_name d \<Longrightarrow> normalizeSegments False [] (split_sep (abs_path d)) = d"
proof (cases "d = []")
  case True
  then show ?thesis by (simp add: abs_path_def)
next
  case False
  assume "list_all valid_name d"
  with False show ?thesis
    using normalizeSegments_valid [of d False "[]"] by (simp add: split_abs_path)
qed

lemma path_resolve_abs: "list_all valid_name d \<Longrightarrow> path_resolve wd (abs_path d) = abs_path d"
  by (simp add: path_resolve_def normalizeString_def normalize_abs_segs) (simp add: abs_path_def)

lemma dropCommon_prefix: "dropCommon d (d @ rest) = ([], rest)"
proof (induction d)
  case Nil
  show ?case by (cases rest) simp_all
next
  case (Cons x d)
  then show ?case by simp
qed

lemma path_relative_abs:
  assumes "list_all valid_name d" "list_all valid_name rest" "rest \<noteq> []"
  shows "path_relative wd (abs_path d) (abs_path (d @ rest)) = join_sep rest"
proof -
  have ne: "abs_path d \<noteq> abs_path (d @ rest)"
    using abs_path_inj [of d "d @ rest"] assms by auto
  show ?thesis
    using ne assms
    by (simp add: path_relative_def path_resolve_abs normalize_abs_segs dropCommon_prefix)
qed

lemma path_normalize_abs:
  assumes "d \<noteq> []" "list_all valid_name d"
  shows "path_normalize (abs_path d) = abs_path d"
proof -
  have l: "last d \<noteq> []" "CHR ''/'' \<notin> set (last d)"
    using assms by (auto simp: list_all_iff valid_name_def)
  have "last (last d) \<noteq> CHR ''/''"
    using l last_in_set by metis
  then have tr: "last (abs_path d) \<noteq> CHR ''/''"
    using join_sep_eq_Nil [OF assms(2)] assms last_join_sep [OF assms] by (simp add: abs_path_def)
  have ne: "join_sep d \<noteq> []"
    using join_sep_eq_Nil [OF assms(2)] assms(1) by simp
  have "normalizeString (abs_path d) False = join_sep d"
    by (simp add: normalizeString_def normalize_abs_segs assms)
  with tr ne show ?thesis
    by (simp add: path_normalize_def Let_def) (simp add: abs_path_def)
qed

lemma path_join_relative:
  assumes "d \<noteq> []" "list_all valid_name d" "rest \<noteq> []" "list_all valid_name rest"
  shows "path_join (abs_path d) (join_sep rest) = abs_path (d @ rest)"
proof -
  have ne: "join_sep rest \<noteq> []"
    using join_sep_eq_Nil [OF assms(4)] assms(3) by simp
  have "abs_path d @ CHR ''/'' # join_sep rest = abs_path (d @ rest)"
    using assms(1,3) by (simp add: abs_path_def join_sep_append)
  moreover have "path_normalize (abs_path (d @ rest)) = abs_path (d @ rest)"
    using assms by (intro path_normalize_abs) simp_all
  ultimately show ?thesis
    using ne by (simp add: path_join_def) (simp add: abs_path_def)
qed

lemma wf_node_entry:
  assumes "wf_node (Dir i entries)" "(f, c) \<in> set entries"
  shows "map_of entries f = Some c" "valid_name f" "wf_node c"
  using assms by auto

lemma tree_dirs_sound:
  "wf_node c \<Longrightarrow> (s, c') \<in> set (tree_dirs d c) \<Longrightarrow>
   \<exists>rest. s = d @ rest \<and> rest \<noteq> [] \<and> list_all valid_name rest \<and> list_all (\<lambda>f. \<not> skipped f) rest \<and>
          node_at c rest = Some c' \<and> (\<exists>j sub. c' = Dir j sub)"
proof (induction d c arbitrary: s c' rule: tree_dirs.induct)
  case (1 d i entries)
  from "1.prems"(2) obtain f c0 where fc: "(f, c0) \<in> set entries" "(s, c') \<in> set (entry_dirs d (f, c0))"
    by (auto simp: tree_dirs_Dir)
  then obtain j sub where c0: "c0 = Dir j sub" "\<not> skipped f"
    and disj: "(s, c') = (d @ [f], c0) \<or> (s, c') \<in> set (tree_dirs (d @ [f]) c0)"
    by (auto simp: entry_dirs_def split: node.splits if_splits)
  note e = wf_node_entry [OF "1.prems"(1) fc(1)]
  from disj show ?case
  proof
    assume "(s, c') = (d @ [f], c0)"
    then show ?thesis using c0 e by (intro exI [of _ "[f]"]) simp
  next
    assume "(s, c') \<in> set (tree_dirs (d @ [f]) c0)"
    with "1.IH" [OF fc(1) refl c0 e(3)] obtain rest where
      "s = (d @ [f]) @ rest" "rest \<noteq> []" "list_all valid_name rest" "list_all (\<lambda>f. \<not> skipped f) rest"
      "node_at c0 rest = Some c'" "\<exists>j sub. c' = Dir j sub"
      by blast
    then show ?thesis using c0 e by (intro exI [of _ "f # rest"]) simp
  qed
qed (simp_all add: tree_dirs.simps)





subsection \<open>The files the writer leaves\<close>

lemma contents_streamWrite:
  "contents (streamWrite d p chunk) q =
     (if q = p then Some ((case contents d p of None \<Rightarrow> [] | Some old \<Rightarrow> old) @ chunk) else contents d q)"
  by (simp add: streamWrite_def)

lemma folders_streamWrite [simp]: "folders (streamWrite d p chunk) = folders d"
  by (simp add: streamWrite_def)

lemma contents_writeLines:
  "contents (writeLines d p ds) q =
     (if q = p \<and> ds \<noteq> [] then Some ((case contents d p of None \<Rightarrow> [] | Some old \<Rightarrow> old) @ concat (map csvLine ds))
      else contents d q)"
  by (induction ds arbitrary: d) (auto simp: contents_streamWrite)

lemma folders_writeLines [simp]: "folders (writeLines d p ds) = folders d"
  by (induction ds arbitrary: d) auto

lemma split_sep_snoc:
  "CHR ''/'' \<notin> set ext \<Longrightarrow>
   split_sep (x @ ext) = butlast (split_sep x) @ [last (split_sep x) @ ext]"
proof (induction x)
  case Nil
  then show ?case by (simp add: split_sep_noslash)
next
  case (Cons c x)
  show ?case
  proof (cases "split_sep x")
    case Nil
    then show ?thesis using split_sep_nonempty [of x] by simp
  next
    case (Cons s ss)
    with Cons.IH [OF Cons.prems] show ?thesis
      by (cases ss) auto
  qed
qed

lemma normalizeSegments_snoc:
  "x \<noteq> [] \<Longrightarrow> x \<noteq> ''.'' \<Longrightarrow> x \<noteq> ''..'' \<Longrightarrow>
   normalizeSegments a res (pre @ [x]) = normalizeSegments a res pre @ [x]"
  by (simp add: normalizeSegments_append)

lemma join_sep_snoc: "join_sep (r @ [x]) = (if r = [] then x else join_sep r @ CHR ''/'' # x)"
  by (cases "r = []") (simp_all add: join_sep_append)

lemma path_normalize_nonempty: "path_normalize p \<noteq> []"
  by (simp add: path_normalize_def Let_def)

lemma path_join_ext_neq:
  assumes "a \<noteq> []" "CHR ''/'' \<notin> set e1" "CHR ''/'' \<notin> set e2" "e1 \<noteq> e2"
    and "3 \<le> length e1" "3 \<le> length e2" "last e1 \<noteq> CHR ''/''" "last e2 \<noteq> CHR ''/''"
  shows "path_join a (b @ e1) \<noteq> path_join a (b @ e2)"
proof -
  define pre where "pre = split_sep a @ butlast (split_sep b)"
  define l where "l = last (split_sep b)"
  define ab where "ab = isAbsolute a"
  define r where "r = normalizeSegments (\<not> ab) [] pre"
  have ne: "e1 \<noteq> []" "e2 \<noteq> []" using assms(5,6) by auto
  have q: "normalizeString (a @ CHR ''/'' # b @ e) (\<not> ab) = join_sep (r @ [l @ e])"
    if "CHR ''/'' \<notin> set e" "3 \<le> length e" for e
  proof -
    have "split_sep (a @ CHR ''/'' # b @ e) = pre @ [l @ e]"
      using that(1) by (simp add: split_sep_append split_sep_snoc pre_def l_def)
    moreover have "l @ e \<noteq> []" "l @ e \<noteq> ''.''" "l @ e \<noteq> ''..''"
      using that(2) by (auto simp: append_eq_Cons_conv)
    ultimately show ?thesis
      by (simp add: normalizeString_def normalizeSegments_snoc r_def)
  qed
  have abs: "isAbsolute (a @ CHR ''/'' # b @ e) = ab" for e
    using assms(1) by (cases a) (simp_all add: isAbsolute_def ab_def)
  have res: "path_join a (b @ e) = (if ab then ''/'' else []) @ join_sep (r @ [l @ e])"
    if "CHR ''/'' \<notin> set e" "3 \<le> length e" "last e \<noteq> CHR ''/''" for e
  proof -
    have e: "e \<noteq> []" using that(2) by auto
    have "join_sep (r @ [l @ e]) \<noteq> []" using e by (simp add: join_sep_snoc)
    then show ?thesis
      using assms(1) e that(3) q [OF that(1,2)] abs [of e]
      by (simp add: path_join_def path_normalize_def Let_def)
  qed
  have "join_sep (r @ [l @ e1]) \<noteq> join_sep (r @ [l @ e2])"
    using assms(4) by (simp add: join_sep_snoc)
  then show ?thesis
    using res [OF assms(2,5,7)] res [OF assms(3,6,8)] by simp
qed

lemma DATA_FOLDER_PATH_nonempty: "DATA_FOLDER_PATH E \<noteq> []"
  by (simp add: DATA_FOLDER_PATH_def path_join_def path_normalize_nonempty)

lemma csv_json_paths_differ: "csvFilePath E ts \<noteq> jsonFilePath E ts"
  unfolding csvFilePath_def jsonFilePath_def append_assoc [symmetric]
  by (rule path_join_ext_neq [OF DATA_FOLDER_PATH_nonempty]) simp_all

lemma write_content:
  assumes "writeDirectoriesToFile E d ds ts = Inr d'"
  shows "contents d' (csvFilePath E ts) =
           Some ((case contents d (csvFilePath E ts) of None \<Rightarrow> [] | Some old \<Rightarrow> old) @
                 csv_header @ concat (map csvLine ds))"
    and "contents d' (jsonFilePath E ts) = Some (JSON_stringify ds)"
    and "q \<noteq> csvFilePath E ts \<Longrightarrow> q \<noteq> jsonFilePath E ts \<Longrightarrow> contents d' q = contents d q"
    and "folders d' = folders d" and "DATA_FOLDER_PATH E \<in> folders d"
  using assms csv_json_paths_differ [of E ts]
  by (auto simp: writeDirectoriesToFile_def openAppend_def writeFile_def Let_def
      contents_writeLines contents_streamWrite split: if_splits option.splits)

lemma write_succeeds:
  "DATA_FOLDER_PATH E \<in> folders d \<Longrightarrow> \<exists>d'. writeDirectoriesToFile E d ds ts = Inr d'"
  by (simp add: writeDirectoriesToFile_def openAppend_def writeFile_def Let_def)

subsection \<open>Claims about the records of a run\<close>

lemma records_of_mem:
  "r \<in> set (records_of E ds) \<Longrightarrow> \<exists>k segs c. (segs, c) \<in> set ds \<and> r = record_of E (k, found_of (segs, c))"
proof -
  assume "r \<in> set (records_of E ds)"
  then obtain k x where kx: "(k, x) \<in> set (List.enumerate 0 (map found_of ds))" "r = record_of E (k, x)"
    by (auto simp: records_of_def)
  from enumerate_snd_mem [OF kx(1)] obtain segs c where "(segs, c) \<in> set ds" "x = found_of (segs, c)"
    by auto
  with kx(2) show ?thesis by blast
qed

lemma map_enumerate_snd: "map (\<lambda>kx. h (snd kx)) (List.enumerate k xs) = map h xs"
  by (induction xs arbitrary: k) simp_all

lemma map_enumerate_fst: "map (\<lambda>kx. h (fst kx)) (List.enumerate k xs) = map h [k..<k + length xs]"
  by (simp add: enumerate_eq_zip comp_def flip: map_map [of h fst, unfolded comp_def])

lemma absolute_path_records_of:
  "map absolute_path (records_of E ds) = map (\<lambda>x. abs_path (fst x)) ds"
proof -
  have "absolute_path (record_of E kx) = fst (snd kx)" for kx
    by (cases kx) (auto simp: record_of_def make_metadata_def)
  then have "map absolute_path (records_of E ds) = map (\<lambda>x. fst x) (map found_of ds)"
    using map_enumerate_snd [of fst 0 "map found_of ds"]
    by (simp add: records_of_def comp_def)
  then show ?thesis by (simp add: found_of_def comp_def case_prod_beta)
qed

lemma uuid_records_of: "map uuid (records_of E ds) = map (uuidv4 E) [0..<length ds]"
proof -
  have "uuid (record_of E kx) = uuidv4 E (fst kx)" for kx
    by (cases kx) (auto simp: record_of_def make_metadata_def)
  then show ?thesis
    using map_enumerate_fst [of "uuidv4 E" 0 "map found_of ds"]
    by (simp add: records_of_def comp_def)
qed

lemma length_records_of [simp]: "length (records_of E ds) = length ds"
  by (simp add: records_of_def)

lemma run_tree:
  assumes "isAbsolute (homedir E)" "wf_node root" "scan_documents n E root = Inr s"
  obtains d' i entries where "walk MAXSYMLINKS root [] (docs_segs E) = Inr d'"
    and "node_at root d' = Some (Dir i entries)" and "wf_node (Dir i entries)"
    and "allDirectories s = records_of E (tree_dirs (docs_segs E) (Dir i entries))"
    and "uuid_calls s = length (allDirectories s)"
proof -
  from scan_documents_returns [OF assms] obtain d' i entries where
    d: "walk MAXSYMLINKS root [] (docs_segs E) = Inr d'" "node_at root d' = Some (Dir i entries)"
    "s = \<lparr>allDirectories = records_of E (tree_dirs (docs_segs E) (Dir i entries)),
                uuid_calls = length (tree_dirs (docs_segs E) (Dir i entries))\<rparr>" by blast
  have "wf_node (Dir i entries)" using assms(2) d(2) by (rule wf_node_at)
  with d that show ?thesis by simp
qed

lemma tree_dirs_valid:
  assumes "wf_node c" "(segs, c') \<in> set (tree_dirs (docs_segs E) c)"
  obtains rest where "segs = docs_segs E @ rest" "rest \<noteq> []" "list_all valid_name rest"
    "list_all (\<lambda>f. \<not> skipped f) rest" "list_all valid_name segs"
proof -
  from tree_dirs_sound [OF assms] obtain rest where
    r: "segs = docs_segs E @ rest" "rest \<noteq> []" "list_all valid_name rest" "list_all (\<lambda>f. \<not> skipped f) rest"
    by blast
  then have "list_all valid_name segs" using docs_segs_valid(1) [of E] by simp
  with r that show ?thesis by blast
qed



text \<open>
  C5: a directory whose name starts with a dot or is one of \<^verbatim>\<open>.git\<close>, \<^verbatim>\<open>.vscode\<close>,
  \<^verbatim>\<open>node_modules\<close> gets no record, and nothing below it does: no record has a skipped
  name, and no path below the Documents folder that goes through a skipped name is the
  \<open>absolute_path\<close> of a record.
\<close>

theorem skipped_directories_not_recorded:
  assumes "isAbsolute (homedir E)" "wf_node root" "scan_documents n E root = Inr s"
  shows "(\<forall>r \<in> set (allDirectories s).
            \<not> (startsWith (name r) ''.'' \<or> name r \<in> set [''.git'', ''.vscode'', ''node_modules''])) \<and>
         (\<forall>rest. list_all valid_name rest \<and>
            (\<exists>f \<in> set rest. startsWith f ''.'' \<or> f \<in> set [''.git'', ''.vscode'', ''node_modules'']) \<longrightarrow>
            abs_path (docs_segs E @ rest) \<notin> absolute_path ` set (allDirectories s))"
proof -
  from assms obtain d' i entries where wf: "wf_node (Dir i entries)"
    and recs: "allDirectories s = records_of E (tree_dirs (docs_segs E) (Dir i entries))"
    by (rule run_tree)
  let ?T = "tree_dirs (docs_segs E) (Dir i entries)"
  have sk: "skipped f \<longleftrightarrow> startsWith f ''.'' \<or> f \<in> set [''.git'', ''.vscode'', ''node_modules'']" for f
    by (simp add: skipped_def IGNORED_DIRECTORIES_def)
  have 1: "\<not> skipped (name r)" if "r \<in> set (allDirectories s)" for r
  proof -
    from that recs records_of_mem obtain k segs c where
      sc: "(segs, c) \<in> set ?T" "r = record_of E (k, found_of (segs, c))" by metis
    from tree_dirs_valid [OF wf sc(1)] obtain rest where
      "segs = docs_segs E @ rest" "rest \<noteq> []" "list_all (\<lambda>f. \<not> skipped f) rest" by metis
    then have "\<not> skipped (last segs)" by (simp add: list_all_iff)
    then show ?thesis using sc(2) by (simp add: found_of_def)
  qed
  have 2: "abs_path (docs_segs E @ rest) \<notin> absolute_path ` set (allDirectories s)"
    if v: "list_all valid_name rest" and f: "\<exists>f \<in> set rest. skipped f" for rest
  proof
    assume "abs_path (docs_segs E @ rest) \<in> absolute_path ` set (allDirectories s)"
    then have "abs_path (docs_segs E @ rest) \<in> set (map absolute_path (allDirectories s))" by simp
    then obtain segs c where sc: "(segs, c) \<in> set ?T" "abs_path (docs_segs E @ rest) = abs_path segs"
      unfolding recs absolute_path_records_of by auto
    from tree_dirs_valid [OF wf sc(1)] obtain rest' where
      r': "segs = docs_segs E @ rest'" "list_all valid_name segs" "list_all (\<lambda>f. \<not> skipped f) rest'" by metis
    have "docs_segs E @ rest = segs"
      using sc(2) r'(2) v docs_segs_valid(1) [of E] by (intro abs_path_inj) simp_all
    with r'(1,3) f show False by (auto simp: list_all_iff)
  qed
  from 1 2 show ?thesis unfolding sk by blast
qed

theorem skipped_directories_not_recorded_witness:
  "isAbsolute (homedir example_env) \<and> wf_node example_root \<and>
   scan_documents 3 example_env example_root = Inr example_result \<and>
   list_all (\<lambda>r. \<not> (startsWith (name r) ''.'' \<or> name r \<in> set [''.git'', ''.vscode'', ''node_modules'']))
     (allDirectories example_result) \<and>
   list_all valid_name [''.git'', ''objects''] \<and>
   (\<exists>f \<in> set [''.git'', ''objects'']. startsWith f ''.'' \<or> f \<in> set [''.git'', ''.vscode'', ''node_modules'']) \<and>
   abs_path (docs_segs example_env @ [''.git'', ''objects'']) \<notin> absolute_path ` set (allDirectories example_result)"
proof -
  note T = skipped_directories_not_recorded [OF ex_absolute ex_wf example_scan]
  from T have 1: "list_all (\<lambda>r. \<not> (startsWith (name r) ''.'' \<or> name r \<in> set [''.git'', ''.vscode'', ''node_modules'']))
     (allDirectories example_result)"
    unfolding list_all_iff by blast
  have v: "list_all valid_name [''.git'', ''objects'']" by (simp add: valid_name_def)
  have f: "\<exists>f \<in> set [''.git'', ''objects'']. startsWith f ''.'' \<or> f \<in> set [''.git'', ''.vscode'', ''node_modules'']"
    by (simp add: startsWith_def)
  from T v f have "abs_path (docs_segs example_env @ [''.git'', ''objects'']) \<notin> absolute_path ` set (allDirectories example_result)"
    by blast
  with 1 v f ex_absolute ex_wf example_scan show ?thesis by blast
qed

text \<open>
  C6: every record's \<open>relative_path\<close> is taken from the one fixed
  \<open>DOCUMENTS_FOLDER_PATH\<close>, and joining that root with the \<open>relative_path\<close> gives the
  record's \<open>absolute_path\<close> back.
\<close>

theorem relative_path_round_trip:
  assumes "isAbsolute (homedir E)" "wf_node root" "scan_documents n E root = Inr s"
    and "r \<in> set (allDirectories s)"
  shows "relative_path r = path_relative (cwd E) (DOCUMENTS_FOLDER_PATH E) (absolute_path r) \<and>
         path_join (DOCUMENTS_FOLDER_PATH E) (relative_path r) = absolute_path r"
proof -
  from assms(1-3) obtain d' i entries where wf: "wf_node (Dir i entries)"
    and recs: "allDirectories s = records_of E (tree_dirs (docs_segs E) (Dir i entries))"
    by (rule run_tree)
  from assms(4) recs records_of_mem obtain k segs c where
    sc: "(segs, c) \<in> set (tree_dirs (docs_segs E) (Dir i entries))" "r = record_of E (k, found_of (segs, c))"
    by metis
  from tree_dirs_valid [OF wf sc(1)] obtain rest where
    rest: "segs = docs_segs E @ rest" "rest \<noteq> []" "list_all valid_name rest" by metis
  have docs: "DOCUMENTS_FOLDER_PATH E = abs_path (docs_segs E)"
    using assms(1) by (rule DOCUMENTS_FOLDER_PATH_abs)
  have a: "absolute_path r = abs_path (docs_segs E @ rest)"
    and rel: "relative_path r = path_relative (cwd E) (DOCUMENTS_FOLDER_PATH E) (absolute_path r)"
    using sc(2) rest(1) by (simp_all add: found_of_def)
  have "relative_path r = join_sep rest"
    unfolding rel a docs using docs_segs_valid(1) rest(3,2) by (rule path_relative_abs)
  moreover have "path_join (abs_path (docs_segs E)) (join_sep rest) = abs_path (docs_segs E @ rest)"
    using docs_segs_valid(2) docs_segs_valid(1) rest(2,3) by (rule path_join_relative)
  ultimately show ?thesis using rel a docs by simp
qed

theorem relative_path_round_trip_witness:
  "isAbsolute (homedir example_env) \<and> wf_node example_root \<and>
   scan_documents 3 example_env example_root = Inr example_result \<and>
   allDirectories example_result ! 1 \<in> set (allDirectories example_result) \<and>
   relative_path (allDirectories example_result ! 1) =
     path_relative (cwd example_env) (DOCUMENTS_FOLDER_PATH example_env)
       (absolute_path (allDirectories example_result ! 1)) \<and>
   path_join (DOCUMENTS_FOLDER_PATH example_env) (relative_path (allDirectories example_result ! 1)) =
     absolute_path (allDirectories example_result ! 1)"
proof -
  have m: "allDirectories example_result ! 1 \<in> set (allDirectories example_result)"
    by (simp add: example_result_def)
  from relative_path_round_trip [OF ex_absolute ex_wf example_scan m] m ex_absolute ex_wf example_scan
  show ?thesis by blast
qed

lemma uuid_new_records:
  "map uuid (map (record_of E) (List.enumerate k xs)) = map (uuidv4 E) [k..<k + length xs]"
proof -
  have "uuid (record_of E kx) = uuidv4 E (fst kx)" for kx
    by (cases kx) (auto simp: record_of_def make_metadata_def)
  then show ?thesis
    using map_enumerate_fst [of "uuidv4 E" k xs] by (simp add: comp_def)
qed

text \<open>
  C8: every record gets the value of one call of \<^verbatim>\<open>uuidv4\<close>, made when the record is
  created, and no call serves two records: the \<open>k\<close>-th record of a run carries the value
  of the \<open>k\<close>-th call. So the identifiers of a run are pairwise different whenever the
  values the generator returned are.
\<close>

theorem uuids_unique:
  assumes "getAllDirectoriesRecursively n E fs p \<lparr>allDirectories = [], uuid_calls = 0\<rparr> = Inr s"
  shows "map uuid (allDirectories s) = map (uuidv4 E) [0..<length (allDirectories s)] \<and>
         uuid_calls s = length (allDirectories s) \<and>
         (inj_on (uuidv4 E) {..<length (allDirectories s)} \<longrightarrow> distinct (map uuid (allDirectories s)))"
proof -
  from scan_new_records [OF assms] obtain xs where
    s: "s = add_all E \<lparr>allDirectories = [], uuid_calls = 0\<rparr> xs" by blast
  have 1: "map uuid (allDirectories s) = map (uuidv4 E) [0..<length (allDirectories s)]"
    using uuid_new_records [of E 0 xs] by (simp add: s add_all_def)
  have 2: "uuid_calls s = length (allDirectories s)"
    by (simp add: s add_all_def)
  have 3: "distinct (map uuid (allDirectories s))" if "inj_on (uuidv4 E) {..<length (allDirectories s)}"
    unfolding 1 using that by (simp add: distinct_map atLeast0LessThan)
  from 1 2 3 show ?thesis by blast
qed

theorem uuids_unique_witness:
  "getAllDirectoriesRecursively 3 example_env (posix example_root (cwd example_env))
     (DOCUMENTS_FOLDER_PATH example_env) \<lparr>allDirectories = [], uuid_calls = 0\<rparr> = Inr example_result \<and>
   inj_on (uuidv4 example_env) {..<length (allDirectories example_result)} \<and>
   map uuid (allDirectories example_result) =
     map (uuidv4 example_env) [0..<length (allDirectories example_result)] \<and>
   uuid_calls example_result = length (allDirectories example_result) \<and>
   distinct (map uuid (allDirectories example_result))"
proof -
  have run: "getAllDirectoriesRecursively 3 example_env (posix example_root (cwd example_env))
     (DOCUMENTS_FOLDER_PATH example_env) \<lparr>allDirectories = [], uuid_calls = 0\<rparr> = Inr example_result"
    using example_scan by (simp only: scan_documents_def)
  have "{..<length (allDirectories example_result)} = {0, Suc 0}"
    by (auto simp: example_result_def)
  then have inj: "inj_on (uuidv4 example_env) {..<length (allDirectories example_result)}"
    by (simp add: ex_uuid ex_dec)
  from uuids_unique [OF run] run inj show ?thesis by blast
qed

subsection \<open>The order of the records\<close>












subsection \<open>The files of a run, and runs on example disks\<close>










text \<open>
  C2, as the code has it: the CSV file gets the header row first, which names the
  identifier field \<^verbatim>\<open>uuid\<close>, and then one line per record in the order of the
  collection: the nine fields in the order of the header, joined by commas and ended by
  a newline, with nothing quoted or escaped. The file is opened for appending, so what
  it held before stays in front.
\<close>

theorem csv_file_content:
  assumes "writeDirectoriesToFile E d directories timestamp = Inr d'"
  shows "contents d' (csvFilePath E timestamp) =
           Some ((case contents d (csvFilePath E timestamp) of None \<Rightarrow> [] | Some old \<Rightarrow> old) @
                 ''uuid,name,relative_path,absolute_path,last_accessed,last_modified,owner,group,permissions'' @
                 [CHR 0x0A] @
                 concat (map (\<lambda>r. uuid r @ '','' @ name r @ '','' @ relative_path r @ '','' @
                                   absolute_path r @ '','' @ last_accessed r @ '','' @
                                   last_modified r @ '','' @ toStringBase 10 (owner r) @ '','' @
                                   toStringBase 10 (group r) @ '','' @ permissions r @ [CHR 0x0A])
                             directories))"
proof -
  have "csvLine = (\<lambda>r. uuid r @ '','' @ name r @ '','' @ relative_path r @ '','' @
                                   absolute_path r @ '','' @ last_accessed r @ '','' @
                                   last_modified r @ '','' @ toStringBase 10 (owner r) @ '','' @
                                   toStringBase 10 (group r) @ '','' @ permissions r @ [CHR 0x0A])"
    by (rule ext) (simp add: csvLine_def newline_def)
  then show ?thesis
    using write_content(1) [OF assms] by (simp add: csv_header_def newline_def)
qed

lemma data_disk_write:
  "\<exists>d'. writeDirectoriesToFile example_env data_disk ds ts = Inr d'"
  by (rule write_succeeds) (simp add: data_disk_def)

theorem csv_file_content_witness:
  "\<exists>d'. writeDirectoriesToFile example_env data_disk (allDirectories example_result)
           (timestamp_of example_now) = Inr d' \<and>
     contents d' (csvFilePath example_env (timestamp_of example_now)) =
       Some (''uuid,name,relative_path,absolute_path,last_accessed,last_modified,owner,group,permissions'' @
             [CHR 0x0A] @
             ''id-0,A,A,/home/u/Documents/A,2023-04-23T11:39:10.000Z,2023-04-23T11:46:20.000Z,1000,1000,755'' @
             [CHR 0x0A] @
             ''id-1,B,A/B,/home/u/Documents/A/B,2023-04-23T11:39:10.000Z,2023-04-23T11:46:20.000Z,1000,1000,700'' @
             [CHR 0x0A])"
proof -
  from data_disk_write obtain d' where
    w: "writeDirectoriesToFile example_env data_disk (allDirectories example_result)
           (timestamp_of example_now) = Inr d'" by blast
  have "contents data_disk (csvFilePath example_env (timestamp_of example_now)) = None"
    by (simp add: data_disk_def)
  with csv_file_content [OF w]
  have "contents d' (csvFilePath example_env (timestamp_of example_now)) =
       Some (''uuid,name,relative_path,absolute_path,last_accessed,last_modified,owner,group,permissions'' @
             [CHR 0x0A] @
             ''id-0,A,A,/home/u/Documents/A,2023-04-23T11:39:10.000Z,2023-04-23T11:46:20.000Z,1000,1000,755'' @
             [CHR 0x0A] @
             ''id-1,B,A/B,/home/u/Documents/A/B,2023-04-23T11:39:10.000Z,2023-04-23T11:46:20.000Z,1000,1000,700'' @
             [CHR 0x0A])"
    by (simp add: example_result_def ex_dec)
  with w show ?thesis by blast
qed

theorem csv_header_names_id_counterexample:
  "\<exists>d'. writeDirectoriesToFile example_env data_disk (allDirectories example_result)
           (timestamp_of example_now) = Inr d' \<and>
     \<not> (\<exists>rest. contents d' (csvFilePath example_env (timestamp_of example_now)) =
           Some (''id,name,relative_path,absolute_path,last_accessed,last_modified,owner,group,permissions'' @
                 [CHR 0x0A] @ rest))"
proof -
  from data_disk_write obtain d' where
    w: "writeDirectoriesToFile example_env data_disk (allDirectories example_result)
           (timestamp_of example_now) = Inr d'" by blast
  have "contents data_disk (csvFilePath example_env (timestamp_of example_now)) = None"
    by (simp add: data_disk_def)
  with write_content(1) [OF w]
  have "\<not> (\<exists>rest. contents d' (csvFilePath example_env (timestamp_of example_now)) =
           Some (''id,name,relative_path,absolute_path,last_accessed,last_modified,owner,group,permissions'' @
                 [CHR 0x0A] @ rest))"
    by (simp add: csv_header_def)
  with w show ?thesis by blast
qed

text \<open>
  C3 at a disk that already holds both files of the run's timestamp: the CSV file keeps
  its content and grows, the JSON file is replaced.
\<close>

theorem json_file_overwritten:
  "\<exists>d'. writeDirectoriesToFile example_env previous_disk [] (timestamp_of example_now) = Inr d' \<and>
     contents previous_disk (csvFilePath example_env (timestamp_of example_now)) = Some ''previous run'' \<and>
     contents previous_disk (jsonFilePath example_env (timestamp_of example_now)) = Some ''previous run'' \<and>
     contents d' (csvFilePath example_env (timestamp_of example_now)) = Some (''previous run'' @ csv_header) \<and>
     contents d' (jsonFilePath example_env (timestamp_of example_now)) = Some ''[]''"
proof -
  have "\<exists>d'. writeDirectoriesToFile example_env previous_disk [] (timestamp_of example_now) = Inr d'"
    by (rule write_succeeds) (simp add: previous_disk_def)
  then obtain d' where
    w: "writeDirectoriesToFile example_env previous_disk [] (timestamp_of example_now) = Inr d'" by blast
  have p: "contents previous_disk (csvFilePath example_env (timestamp_of example_now)) = Some ''previous run''"
    "contents previous_disk (jsonFilePath example_env (timestamp_of example_now)) = Some ''previous run''"
    by (simp_all add: previous_disk_def)
  have c: "contents d' (csvFilePath example_env (timestamp_of example_now)) = Some (''previous run'' @ csv_header)"
    using write_content(1) [OF w] p(1) by simp
  have j: "contents d' (jsonFilePath example_env (timestamp_of example_now)) = Some ''[]''"
    using write_content(2) [OF w] by (simp add: JSON_stringify_def)
  from w p c j show ?thesis by blast
qed

lemma symlink_wf: "wf_node symlink_root"
  by (simp add: symlink_root_def valid_name_def)

lemma symlink_node_at:
  "node_at symlink_root [''home'', ''u'', ''Documents''] =
     Some (Dir (ino 493) [(''L'', Symlink (ino 511) ''/home/u/T'')])"
  by (simp add: symlink_root_def)

lemma symlink_walk:
  "walk MAXSYMLINKS symlink_root [] (docs_segs example_env) = Inr [''home'', ''u'', ''Documents'']"
  using walk_real [of symlink_root "[]" "[''home'', ''u'', ''Documents'']" "ino 493" _ MAXSYMLINKS] symlink_node_at
  by (simp add: valid_name_def ex_docs_segs)

lemma symlink_resolves:
  "walk MAXSYMLINKS symlink_root [] (from_cwd (cwd example_env) ''/home/u/Documents/L'') = Inr [''home'', ''u'', ''T'']"
  by (simp add: from_cwd_def isAbsolute_def symlink_root_def MAXSYMLINKS_def)

text \<open>
  C1 at a Documents folder that holds one symbolic link \<^verbatim>\<open>L\<close> to the directory
  \<^verbatim>\<open>/home/u/T\<close>: the link resolves to the directory and can be listed through, and the
  scan makes no record for it.
\<close>

theorem symlinked_directory_gets_no_record:
  "realpath (posix symlink_root (cwd example_env)) ''/home/u/Documents/L'' = Inr ''/home/u/T'' \<and>
   readdir (posix symlink_root (cwd example_env)) ''/home/u/Documents/L'' = Inr [''X''] \<and>
   scan_documents 3 example_env symlink_root = Inr \<lparr>allDirectories = [], uuid_calls = 0\<rparr>"
proof (intro conjI)
  show "realpath (posix symlink_root (cwd example_env)) ''/home/u/Documents/L'' = Inr ''/home/u/T''"
    by (simp add: posix_def fs_realpath_def symlink_resolves)
  show "readdir (posix symlink_root (cwd example_env)) ''/home/u/Documents/L'' = Inr [''X'']"
    by (simp add: posix_def fs_readdir_def symlink_resolves) (simp add: symlink_root_def)
  have "scan_documents 3 example_env symlink_root =
          Inr \<lparr>allDirectories = records_of example_env
                   (tree_dirs (docs_segs example_env) (Dir (ino 493) [(''L'', Symlink (ino 511) ''/home/u/T'')])),
               uuid_calls = length (tree_dirs (docs_segs example_env) (Dir (ino 493) [(''L'', Symlink (ino 511) ''/home/u/T'')]))\<rparr>"
    using ex_absolute symlink_wf symlink_walk symlink_node_at
    by (rule scan_documents_tree) simp
  then show "scan_documents 3 example_env symlink_root = Inr \<lparr>allDirectories = [], uuid_calls = 0\<rparr>"
    by (simp add: tree_dirs_Dir entry_dirs_def records_of_def)
qed

end
